theory Spec2Isabelle
  imports Main
begin

section \<open>Element types, raw storage and the machine state\<close>

text \<open>
  The container of \<^verbatim>\<open>vector.h\<close> is a class template over an element type \<open>T\<close>.
  What the code uses of \<open>T\<close> is collected in a record of traits: the two compile-time
  predicates that select the transfer policy, whether move assignment can throw, the
  value of a value-initialised object, and the value a moved-from object is left with.
  A copy yields an equal object and leaves its source alone; a move yields the source's
  value and leaves \<open>moved_from\<close> of it behind.
\<close>

record 'a traits =
  nothrow_move_constructible :: bool
  copy_constructible :: bool
  nothrow_move_assignable :: bool
  value_init :: 'a
  moved_from :: "'a \<Rightarrow> 'a"

text \<open>
  An exception is \<open>Thrown\<close>; a failed \<^verbatim>\<open>assert\<close> or a use of storage that holds no
  object (a contract violation, undefined in the source) is \<open>Violation\<close>.
\<close>

datatype error = Thrown | Violation

text \<open>
  The fields \<^verbatim>\<open>buffer_\<close>, \<^verbatim>\<open>capacity_\<close> of \<^verbatim>\<open>RawMemory\<close> and \<^verbatim>\<open>data_\<close>, \<^verbatim>\<open>size_\<close> of
  \<^verbatim>\<open>Vector\<close> are \<open>raw_buffer\<close>, \<open>raw_capacity\<close>, \<open>vec_data\<close> and \<open>vec_size\<close> (a name
  cannot end in an underscore here). \<^verbatim>\<open>T* buffer_\<close> is the address of a block, \<open>0\<close>
  being \<^verbatim>\<open>nullptr\<close>. \<^verbatim>\<open>size_t\<close> has 64 bits; counts are natural numbers, and the
  products that can exceed the range of \<^verbatim>\<open>size_t\<close>, \<^verbatim>\<open>n * sizeof(T)\<close> in \<^verbatim>\<open>Allocate\<close> and
  \<^verbatim>\<open>size_ * 2\<close> where the buffer grows, are taken modulo \<open>2 ^ 64\<close>; \<^verbatim>\<open>size_ - 1\<close> at \<open>0\<close>
  is written out as \<open>minus_one\<close>.
\<close>

record RawMemory =
  raw_buffer :: nat
  raw_capacity :: nat

record Vector =
  vec_data :: RawMemory
  vec_size :: nat

text \<open>
  The machine: the free store is the list of all blocks ever allocated, block \<open>p\<close> at
  position \<open>p - 1\<close>, \<open>None\<close> once released (addresses are not reused). A block is a list
  of slots; a slot is \<open>None\<close> while it is raw memory and \<open>Some x\<close> while it holds a live
  object of value \<open>x\<close>. \<open>alloc_budget\<close> and \<open>throw_budget\<close> inject failures: \<open>Some k\<close>
  lets \<open>k\<close> more allocations (respectively, potentially throwing operations of \<open>T\<close>)
  succeed and makes the next one throw; \<open>None\<close> never throws. \<open>copy_calls\<close> and
  \<open>move_calls\<close> count the invocations of \<open>T\<close>'s copy and move constructor. \<open>raws\<close> and
  \<open>vecs\<close> hold the named \<^verbatim>\<open>RawMemory\<close> and \<^verbatim>\<open>Vector\<close> objects by reference, so that
  \<^verbatim>\<open>this != &rhs\<close> is a comparison of references. \<open>slot_bytes\<close> is \<^verbatim>\<open>sizeof(T)\<close>.
\<close>

record 'a machine =
  heap :: "'a option list option list"
  slot_bytes :: nat
  alloc_budget :: "nat option"
  throw_budget :: "nat option"
  copy_calls :: nat
  move_calls :: nat
  raws :: "nat \<Rightarrow> RawMemory"
  vecs :: "nat \<Rightarrow> Vector"

type_synonym ('a, 'r) mop = "'a machine \<Rightarrow> (error + 'r) \<times> 'a machine"

definition ret :: "'r \<Rightarrow> ('a, 'r) mop" where
  "ret r s = (Inr r, s)"

definition fail :: "error \<Rightarrow> ('a, 'r) mop" where
  "fail e s = (Inl e, s)"

definition bind :: "('a, 'r) mop \<Rightarrow> ('r \<Rightarrow> ('a, 'q) mop) \<Rightarrow> ('a, 'q) mop" where
  "bind m f s = (case m s of (Inl e, s1) \<Rightarrow> (Inl e, s1) | (Inr r, s1) \<Rightarrow> f r s1)"

text \<open>
  \<open>on_throw m h\<close>: run \<open>m\<close>; when an exception leaves it, run the cleanup \<open>h\<close> (a
  \<^verbatim>\<open>catch (...) { h; throw; }\<close>, or the destructor of a local during unwinding) and
  let the exception go on.
\<close>

definition on_throw :: "('a, 'r) mop \<Rightarrow> ('a, unit) mop \<Rightarrow> ('a, 'r) mop" where
  "on_throw m h s =
     (case m s of
        (Inl Thrown, s1) \<Rightarrow>
          (case h s1 of (Inl e, s2) \<Rightarrow> (Inl e, s2) | (Inr _, s2) \<Rightarrow> (Inl Thrown, s2))
      | (Inl Violation, s1) \<Rightarrow> (Inl Violation, s1)
      | (Inr r, s1) \<Rightarrow> (Inr r, s1))"

definition assert_that :: "bool \<Rightarrow> ('a, unit) mop" where
  "assert_that b = (if b then ret () else fail Violation)"

definition block_at :: "'a machine \<Rightarrow> nat \<Rightarrow> 'a option list option" where
  "block_at s p = (if p = 0 \<or> length (heap s) < p then None else heap s ! (p - 1))"

definition set_block :: "nat \<Rightarrow> 'a option list option \<Rightarrow> 'a machine \<Rightarrow> 'a machine" where
  "set_block p b s = s\<lparr>heap := (heap s)[p - 1 := b]\<rparr>"

definition live_at :: "'a machine \<Rightarrow> nat \<Rightarrow> nat \<Rightarrow> 'a option" where
  "live_at s p i =
     (case block_at s p of None \<Rightarrow> None
      | Some b \<Rightarrow> if i < length b then b ! i else None)"

definition put_slot :: "nat \<Rightarrow> nat \<Rightarrow> 'a option \<Rightarrow> ('a, unit) mop" where
  "put_slot p i x s =
     (case block_at s p of None \<Rightarrow> (Inl Violation, s)
      | Some b \<Rightarrow> if i < length b then (Inr (), set_block p (Some (b[i := x])) s)
                  else (Inl Violation, s))"

definition may_throw :: "('a, unit) mop" where
  "may_throw s =
     (case throw_budget s of
        None \<Rightarrow> (Inr (), s)
      | Some 0 \<Rightarrow> (Inl Thrown, s\<lparr>throw_budget := None\<rparr>)
      | Some (Suc k) \<Rightarrow> (Inr (), s\<lparr>throw_budget := Some k\<rparr>))"

subsection \<open>Operations of the element type on slots\<close>

text \<open>\<^verbatim>\<open>new (p + i) T(args...)\<close>, where the constructor yields the value \<open>x\<close> or throws.\<close>

definition construct_at :: "nat \<Rightarrow> nat \<Rightarrow> 'a \<Rightarrow> ('a, unit) mop" where
  "construct_at p i x = bind may_throw (\<lambda>_. put_slot p i (Some x))"

definition copy_construct :: "nat \<Rightarrow> nat \<Rightarrow> nat \<Rightarrow> nat \<Rightarrow> ('a, unit) mop" where
  "copy_construct sp si dp di s =
     (case live_at s sp si of None \<Rightarrow> (Inl Violation, s)
      | Some x \<Rightarrow>
          bind may_throw (\<lambda>_. put_slot dp di (Some x))
            (s\<lparr>copy_calls := Suc (copy_calls s)\<rparr>))"

definition move_construct :: "'a traits \<Rightarrow> nat \<Rightarrow> nat \<Rightarrow> nat \<Rightarrow> nat \<Rightarrow> ('a, unit) mop" where
  "move_construct T sp si dp di s =
     (case live_at s sp si of None \<Rightarrow> (Inl Violation, s)
      | Some x \<Rightarrow>
          bind (if nothrow_move_constructible T then ret () else may_throw)
            (\<lambda>_. bind (put_slot dp di (Some x))
               (\<lambda>_. put_slot sp si (Some (moved_from T x))))
            (s\<lparr>move_calls := Suc (move_calls s)\<rparr>))"

definition copy_assign :: "nat \<Rightarrow> nat \<Rightarrow> nat \<Rightarrow> nat \<Rightarrow> ('a, unit) mop" where
  "copy_assign sp si dp di s =
     (case (live_at s sp si, live_at s dp di) of
        (Some x, Some _) \<Rightarrow> bind may_throw (\<lambda>_. put_slot dp di (Some x)) s
      | _ \<Rightarrow> (Inl Violation, s))"

definition move_assign :: "'a traits \<Rightarrow> nat \<Rightarrow> nat \<Rightarrow> nat \<Rightarrow> nat \<Rightarrow> ('a, unit) mop" where
  "move_assign T sp si dp di s =
     (case (live_at s sp si, live_at s dp di) of
        (Some x, Some _) \<Rightarrow>
          bind (if nothrow_move_assignable T then ret () else may_throw)
            (\<lambda>_. bind (put_slot dp di (Some x))
               (\<lambda>_. put_slot sp si (Some (moved_from T x)))) s
      | _ \<Rightarrow> (Inl Violation, s))"

text \<open>\<^verbatim>\<open>p[i] = std::move(temp)\<close> for a local \<open>temp\<close> of value \<open>x\<close>.\<close>

definition move_assign_value :: "'a traits \<Rightarrow> 'a \<Rightarrow> nat \<Rightarrow> nat \<Rightarrow> ('a, unit) mop" where
  "move_assign_value T x dp di s =
     (case live_at s dp di of
        Some _ \<Rightarrow>
          bind (if nothrow_move_assignable T then ret () else may_throw)
            (\<lambda>_. put_slot dp di (Some x)) s
      | None \<Rightarrow> (Inl Violation, s))"

text \<open>
  The arguments of a constructor call \<^verbatim>\<open>T(std::forward<Args>(args)...)\<close>: \<open>Args x\<close> are
  arguments from which a constructor other than the copy and the move constructor
  builds the value \<open>x\<close>; \<open>Copy r\<close> is one lvalue of type \<open>T\<close>, which selects the copy
  constructor, and \<open>Move r\<close> one rvalue, which selects the move constructor. The object
  referred to is the element in slot \<open>k\<close> of the vector's own buffer (\<open>Element k\<close>) or
  an object of value \<open>x\<close> outside the free store (\<open>External x\<close>); what a move leaves in
  an outside object is not recorded.
\<close>

datatype 'a source = External 'a | Element nat

datatype 'a args = Args 'a | Copy "'a source" | Move "'a source"

text \<open>\<^verbatim>\<open>new (p + i) T(std::forward<Args>(args)...)\<close>, \<open>buf\<close> being the vector's buffer.\<close>

definition construct_from :: "'a traits \<Rightarrow> nat \<Rightarrow> 'a args \<Rightarrow> nat \<Rightarrow> nat \<Rightarrow> ('a, unit) mop" where
  "construct_from T buf a p i =
     (case a of
        Args x \<Rightarrow> construct_at p i x
      | Copy (External x) \<Rightarrow>
          (\<lambda>s. bind may_throw (\<lambda>_. put_slot p i (Some x))
                 (s\<lparr>copy_calls := Suc (copy_calls s)\<rparr>))
      | Copy (Element k) \<Rightarrow> copy_construct buf k p i
      | Move (External x) \<Rightarrow>
          (\<lambda>s. bind (if nothrow_move_constructible T then ret () else may_throw)
                 (\<lambda>_. put_slot p i (Some x))
                 (s\<lparr>move_calls := Suc (move_calls s)\<rparr>))
      | Move (Element k) \<Rightarrow> move_construct T buf k p i)"

text \<open>\<^verbatim>\<open>T temp_value(std::forward<Args>(args)...)\<close>: the value of the local.\<close>

definition make_temp :: "'a traits \<Rightarrow> nat \<Rightarrow> 'a args \<Rightarrow> ('a, 'a) mop" where
  "make_temp T buf a =
     (case a of
        Args x \<Rightarrow> bind may_throw (\<lambda>_. ret x)
      | Copy (External x) \<Rightarrow>
          (\<lambda>s. bind may_throw (\<lambda>_. ret x) (s\<lparr>copy_calls := Suc (copy_calls s)\<rparr>))
      | Copy (Element k) \<Rightarrow>
          (\<lambda>s. case live_at s buf k of None \<Rightarrow> (Inl Violation, s)
                | Some x \<Rightarrow>
                    bind may_throw (\<lambda>_. ret x) (s\<lparr>copy_calls := Suc (copy_calls s)\<rparr>))
      | Move (External x) \<Rightarrow>
          (\<lambda>s. bind (if nothrow_move_constructible T then ret () else may_throw)
                 (\<lambda>_. ret x) (s\<lparr>move_calls := Suc (move_calls s)\<rparr>))
      | Move (Element k) \<Rightarrow>
          (\<lambda>s. case live_at s buf k of None \<Rightarrow> (Inl Violation, s)
                | Some x \<Rightarrow>
                    bind (if nothrow_move_constructible T then ret () else may_throw)
                      (\<lambda>_. bind (put_slot buf k (Some (moved_from T x))) (\<lambda>_. ret x))
                      (s\<lparr>move_calls := Suc (move_calls s)\<rparr>)))"

definition destroy_at :: "nat \<Rightarrow> nat \<Rightarrow> ('a, unit) mop" where
  "destroy_at p i s =
     (case live_at s p i of None \<Rightarrow> (Inl Violation, s)
      | Some _ \<Rightarrow> put_slot p i None s)"

subsection \<open>The algorithms of the standard library that the container calls\<close>

text \<open>
  Ranges are given as the block address, the offset of the first slot and the number
  of elements. The \<^verbatim>\<open>uninitialized_\<close> algorithms destroy what they have constructed when
  a constructor throws.
\<close>

fun destroy_n :: "nat \<Rightarrow> nat \<Rightarrow> nat \<Rightarrow> ('a, unit) mop" where
  "destroy_n p i 0 s = (Inr (), s)"
| "destroy_n p i (Suc n) s =
     (case destroy_at p i s of
        (Inl e, s1) \<Rightarrow> (Inl e, s1)
      | (Inr _, s1) \<Rightarrow> destroy_n p (Suc i) n s1)"

fun uninitialized_value_construct_n :: "'a traits \<Rightarrow> nat \<Rightarrow> nat \<Rightarrow> nat \<Rightarrow> ('a, unit) mop" where
  "uninitialized_value_construct_n T p i 0 s = (Inr (), s)"
| "uninitialized_value_construct_n T p i (Suc n) s =
     (case construct_at p i (value_init T) s of
        (Inl e, s1) \<Rightarrow> (Inl e, s1)
      | (Inr _, s1) \<Rightarrow>
          on_throw (uninitialized_value_construct_n T p (Suc i) n) (destroy_at p i) s1)"

fun uninitialized_copy_n :: "nat \<Rightarrow> nat \<Rightarrow> nat \<Rightarrow> nat \<Rightarrow> nat \<Rightarrow> ('a, unit) mop" where
  "uninitialized_copy_n sp si 0 dp di s = (Inr (), s)"
| "uninitialized_copy_n sp si (Suc n) dp di s =
     (case copy_construct sp si dp di s of
        (Inl e, s1) \<Rightarrow> (Inl e, s1)
      | (Inr _, s1) \<Rightarrow>
          on_throw (uninitialized_copy_n sp (Suc si) n dp (Suc di)) (destroy_at dp di) s1)"

fun uninitialized_move_n :: "'a traits \<Rightarrow> nat \<Rightarrow> nat \<Rightarrow> nat \<Rightarrow> nat \<Rightarrow> nat \<Rightarrow> ('a, unit) mop" where
  "uninitialized_move_n T sp si 0 dp di s = (Inr (), s)"
| "uninitialized_move_n T sp si (Suc n) dp di s =
     (case move_construct T sp si dp di s of
        (Inl e, s1) \<Rightarrow> (Inl e, s1)
      | (Inr _, s1) \<Rightarrow>
          on_throw (uninitialized_move_n T sp (Suc si) n dp (Suc di)) (destroy_at dp di) s1)"

text \<open>\<^verbatim>\<open>std::copy\<close>: copy assignment, first to last.\<close>

fun std_copy :: "nat \<Rightarrow> nat \<Rightarrow> nat \<Rightarrow> nat \<Rightarrow> nat \<Rightarrow> ('a, unit) mop" where
  "std_copy sp si 0 dp di s = (Inr (), s)"
| "std_copy sp si (Suc n) dp di s =
     (case copy_assign sp si dp di s of
        (Inl e, s1) \<Rightarrow> (Inl e, s1)
      | (Inr _, s1) \<Rightarrow> std_copy sp (Suc si) n dp (Suc di) s1)"

text \<open>\<^verbatim>\<open>std::move\<close> (the algorithm): move assignment, first to last.\<close>

fun std_move :: "'a traits \<Rightarrow> nat \<Rightarrow> nat \<Rightarrow> nat \<Rightarrow> nat \<Rightarrow> nat \<Rightarrow> ('a, unit) mop" where
  "std_move T sp si 0 dp di s = (Inr (), s)"
| "std_move T sp si (Suc n) dp di s =
     (case move_assign T sp si dp di s of
        (Inl e, s1) \<Rightarrow> (Inl e, s1)
      | (Inr _, s1) \<Rightarrow> std_move T sp (Suc si) n dp (Suc di) s1)"

text \<open>
  \<^verbatim>\<open>std::move_backward(first, last, d_last)\<close>: move assignment, last to first, the
  destination range ending at offset \<open>dend\<close>.
\<close>

fun std_move_backward :: "'a traits \<Rightarrow> nat \<Rightarrow> nat \<Rightarrow> nat \<Rightarrow> nat \<Rightarrow> nat \<Rightarrow> ('a, unit) mop" where
  "std_move_backward T sp si 0 dp dend s = (Inr (), s)"
| "std_move_backward T sp si (Suc n) dp dend s =
     (if dend = 0 then (Inl Violation, s)
      else case move_assign T sp (si + n) dp (dend - 1) s of
        (Inl e, s1) \<Rightarrow> (Inl e, s1)
      | (Inr _, s1) \<Rightarrow> std_move_backward T sp si n dp (dend - 1) s1)"

section \<open>RawMemory\<close>

text \<open>
  \<^verbatim>\<open>operator new(bytes)\<close>: a new block, which has room for \<open>bytes div sizeof(T)\<close>
  objects, or \<^verbatim>\<open>std::bad_alloc\<close>.
\<close>

definition operator_new :: "nat \<Rightarrow> ('a, nat) mop" where
  "operator_new bytes s =
     (case alloc_budget s of
        Some 0 \<Rightarrow> (Inl Thrown, s\<lparr>alloc_budget := None\<rparr>)
      | Some (Suc k) \<Rightarrow>
          (Inr (Suc (length (heap s))),
           s\<lparr>heap := heap s @ [Some (replicate (bytes div slot_bytes s) None)],
             alloc_budget := Some k\<rparr>)
      | None \<Rightarrow>
          (Inr (Suc (length (heap s))),
           s\<lparr>heap := heap s @ [Some (replicate (bytes div slot_bytes s) None)]\<rparr>))"

definition Allocate :: "nat \<Rightarrow> ('a, nat) mop" where
  "Allocate n s =
     (if n \<noteq> 0 then operator_new ((n * slot_bytes s) mod 2 ^ 64) s else (Inr 0, s))"

text \<open>\<^verbatim>\<open>operator delete\<close>: nothing for \<^verbatim>\<open>nullptr\<close>; releasing a block twice is undefined.\<close>

definition Deallocate :: "nat \<Rightarrow> ('a, unit) mop" where
  "Deallocate buf s =
     (if buf = 0 then (Inr (), s)
      else case block_at s buf of
        None \<Rightarrow> (Inl Violation, s)
      | Some _ \<Rightarrow> (Inr (), set_block buf None s))"

definition RawMemory_default :: RawMemory where
  "RawMemory_default = \<lparr>raw_buffer = 0, raw_capacity = 0\<rparr>"

text \<open>\<^verbatim>\<open>explicit RawMemory(size_t capacity)\<close>, for a local or a member.\<close>

definition RawMemory_ctor :: "nat \<Rightarrow> ('a, RawMemory) mop" where
  "RawMemory_ctor capacity =
     bind (Allocate capacity) (\<lambda>p. ret \<lparr>raw_buffer = p, raw_capacity = capacity\<rparr>)"

definition RawMemory_dtor :: "RawMemory \<Rightarrow> ('a, unit) mop" where
  "RawMemory_dtor m = Deallocate (raw_buffer m)"

text \<open>\<^verbatim>\<open>operator+\<close> and \<^verbatim>\<open>operator[]\<close> yield the block address and the offset.\<close>

definition RawMemory_plus :: "RawMemory \<Rightarrow> nat \<Rightarrow> ('a, nat \<times> nat) mop" where
  "RawMemory_plus m offset =
     bind (assert_that (offset \<le> raw_capacity m)) (\<lambda>_. ret (raw_buffer m, offset))"

definition RawMemory_index :: "RawMemory \<Rightarrow> nat \<Rightarrow> ('a, nat \<times> nat) mop" where
  "RawMemory_index m index =
     bind (assert_that (index < raw_capacity m)) (\<lambda>_. ret (raw_buffer m, index))"

text \<open>\<^verbatim>\<open>Swap\<close> on the fields of two objects: the new fields of \<open>*this\<close> and of \<open>other\<close>.\<close>

definition RawMemory_Swap :: "RawMemory \<Rightarrow> RawMemory \<Rightarrow> RawMemory \<times> RawMemory" where
  "RawMemory_Swap a b =
     (a\<lparr>raw_buffer := raw_buffer b, raw_capacity := raw_capacity b\<rparr>,
      b\<lparr>raw_buffer := raw_buffer a, raw_capacity := raw_capacity a\<rparr>)"

definition RawMemory_Swap_at :: "nat \<Rightarrow> nat \<Rightarrow> ('a, unit) mop" where
  "RawMemory_Swap_at this other s =
     (let (a, b) = RawMemory_Swap (raws s this) (raws s other)
      in (Inr (), s\<lparr>raws := (raws s)(this := a, other := b)\<rparr>))"

text \<open>\<^verbatim>\<open>RawMemory(RawMemory&& other)\<close> constructs the object at \<open>this\<close>.\<close>

definition RawMemory_move_ctor :: "nat \<Rightarrow> nat \<Rightarrow> ('a, unit) mop" where
  "RawMemory_move_ctor this other s =
     (let s1 = s\<lparr>raws := (raws s)(this :=
                 \<lparr>raw_buffer = raw_buffer (raws s other), raw_capacity = raw_capacity (raws s other)\<rparr>)\<rparr>
      in (Inr (), s1\<lparr>raws := (raws s1)(other := \<lparr>raw_buffer = 0, raw_capacity = 0\<rparr>)\<rparr>))"

text \<open>\<^verbatim>\<open>operator=(RawMemory&& rhs)\<close>.\<close>

definition RawMemory_move_assign :: "nat \<Rightarrow> nat \<Rightarrow> ('a, unit) mop" where
  "RawMemory_move_assign this rhs s =
     (if this \<noteq> rhs then
        bind (Deallocate (raw_buffer (raws s this)))
          (\<lambda>_ s1. RawMemory_Swap_at this rhs
             (s1\<lparr>raws := (raws s1)(this := (raws s1 this)\<lparr>raw_capacity := 0\<rparr>)\<rparr>)) s
      else (Inr (), s))"

section \<open>Vector\<close>

definition minus_one :: "nat \<Rightarrow> nat" where
  "minus_one n = (if n = 0 then 2 ^ 64 - 1 else n - 1)"

definition set_vec :: "nat \<Rightarrow> Vector \<Rightarrow> ('a, unit) mop" where
  "set_vec this v s = (Inr (), s\<lparr>vecs := (vecs s)(this := v)\<rparr>)"

definition Vector_default :: Vector where
  "Vector_default = \<lparr>vec_data = RawMemory_default, vec_size = 0\<rparr>"

definition Vector_default_ctor :: "nat \<Rightarrow> ('a, unit) mop" where
  "Vector_default_ctor this = set_vec this Vector_default"

text \<open>
  \<^verbatim>\<open>explicit Vector(size_t size)\<close>. When the body throws, the member \<^verbatim>\<open>data_\<close> is
  destroyed and no object comes into being at \<open>this\<close>.
\<close>

definition Vector_sized_ctor :: "'a traits \<Rightarrow> nat \<Rightarrow> nat \<Rightarrow> ('a, unit) mop" where
  "Vector_sized_ctor T this sz =
     bind (RawMemory_ctor sz) (\<lambda>d.
       bind (on_throw (uninitialized_value_construct_n T (raw_buffer d) 0 sz)
               (RawMemory_dtor d))
         (\<lambda>_. set_vec this \<lparr>vec_data = d, vec_size = sz\<rparr>))"

text \<open>
  \<^verbatim>\<open>Vector(const Vector& other)\<close>: \<open>Vector_copy\<close> yields the fields of the new object
  (for the local \<^verbatim>\<open>rhs_copy\<close> of the copy assignment), \<open>Vector_copy_ctor\<close> constructs it
  at \<open>this\<close>.
\<close>

definition Vector_copy :: "Vector \<Rightarrow> ('a, Vector) mop" where
  "Vector_copy other =
     bind (RawMemory_ctor (vec_size other)) (\<lambda>d.
       bind (on_throw
               (uninitialized_copy_n (raw_buffer (vec_data other)) 0 (vec_size other)
                  (raw_buffer d) 0)
               (RawMemory_dtor d))
         (\<lambda>_. ret \<lparr>vec_data = d, vec_size = vec_size other\<rparr>))"

definition Vector_copy_ctor :: "nat \<Rightarrow> nat \<Rightarrow> ('a, unit) mop" where
  "Vector_copy_ctor this other s = bind (Vector_copy (vecs s other)) (set_vec this) s"

definition Vector_Swap :: "Vector \<Rightarrow> Vector \<Rightarrow> Vector \<times> Vector" where
  "Vector_Swap a b =
     (let (da, db) = RawMemory_Swap (vec_data a) (vec_data b)
      in (a\<lparr>vec_data := da, vec_size := vec_size b\<rparr>,
          b\<lparr>vec_data := db, vec_size := vec_size a\<rparr>))"

definition Vector_Swap_at :: "nat \<Rightarrow> nat \<Rightarrow> ('a, unit) mop" where
  "Vector_Swap_at this other s =
     (let (a, b) = Vector_Swap (vecs s this) (vecs s other)
      in (Inr (), s\<lparr>vecs := (vecs s)(this := a, other := b)\<rparr>))"

text \<open>\<^verbatim>\<open>~Vector()\<close>, followed by the destructor of the member \<^verbatim>\<open>data_\<close>.\<close>

definition Vector_destroy :: "Vector \<Rightarrow> ('a, unit) mop" where
  "Vector_destroy v =
     bind (destroy_n (raw_buffer (vec_data v)) 0 (vec_size v))
       (\<lambda>_. RawMemory_dtor (vec_data v))"

definition Vector_dtor :: "nat \<Rightarrow> ('a, unit) mop" where
  "Vector_dtor this s = Vector_destroy (vecs s this) s"

text \<open>\<^verbatim>\<open>operator=(const Vector& rhs)\<close>.\<close>

definition Vector_copy_assign :: "nat \<Rightarrow> nat \<Rightarrow> ('a, unit) mop" where
  "Vector_copy_assign this rhs s =
     (if this \<noteq> rhs then
        (let t = vecs s this; r = vecs s rhs;
             tb = raw_buffer (vec_data t); rb = raw_buffer (vec_data r)
         in if vec_size r > raw_capacity (vec_data t) then
              bind (Vector_copy r) (\<lambda>rhs_copy.
                let (t1, c1) = Vector_Swap t rhs_copy
                in bind (set_vec this t1) (\<lambda>_. Vector_destroy c1)) s
            else
              bind
                (if vec_size r < vec_size t then
                   bind (std_copy rb 0 (vec_size r) tb 0)
                     (\<lambda>_. destroy_n tb (vec_size r) (vec_size t - vec_size r))
                 else
                   bind (std_copy rb 0 (vec_size t) tb 0)
                     (\<lambda>_. uninitialized_copy_n rb (vec_size t) (vec_size r - vec_size t)
                             tb (vec_size t)))
                (\<lambda>_. set_vec this (t\<lparr>vec_size := vec_size r\<rparr>)) s)
      else (Inr (), s))"

text \<open>\<^verbatim>\<open>Vector(Vector&& other)\<close>: the members are default-initialised, then swapped.\<close>

definition Vector_move_ctor :: "nat \<Rightarrow> nat \<Rightarrow> ('a, unit) mop" where
  "Vector_move_ctor this other =
     bind (Vector_default_ctor this) (\<lambda>_. Vector_Swap_at this other)"

text \<open>\<^verbatim>\<open>operator=(Vector&& rhs)\<close>.\<close>

definition Vector_move_assign :: "nat \<Rightarrow> nat \<Rightarrow> ('a, unit) mop" where
  "Vector_move_assign this rhs s =
     (if this \<noteq> rhs then Vector_Swap_at this rhs s else (Inr (), s))"

definition Size :: "'a machine \<Rightarrow> nat \<Rightarrow> nat" where
  "Size s this = vec_size (vecs s this)"

definition Capacity :: "'a machine \<Rightarrow> nat \<Rightarrow> nat" where
  "Capacity s this = raw_capacity (vec_data (vecs s this))"

definition IsEmpty :: "'a machine \<Rightarrow> nat \<Rightarrow> bool" where
  "IsEmpty s this = (vec_size (vecs s this) = 0)"

text \<open>\<^verbatim>\<open>operator[]\<close> of \<^verbatim>\<open>Vector\<close>: the slot of the element.\<close>

definition Vector_index :: "nat \<Rightarrow> nat \<Rightarrow> ('a, nat \<times> nat) mop" where
  "Vector_index this index s =
     bind (assert_that (index < vec_size (vecs s this)))
       (\<lambda>_. RawMemory_index (vec_data (vecs s this)) index) s"

definition Reserve :: "'a traits \<Rightarrow> nat \<Rightarrow> nat \<Rightarrow> ('a, unit) mop" where
  "Reserve T this new_capacity s =
     (let v = vecs s this; d = vec_data v
      in if new_capacity \<le> raw_capacity d then (Inr (), s)
         else
           bind (RawMemory_ctor new_capacity) (\<lambda>new_data.
             bind (on_throw
                     (if nothrow_move_constructible T \<or> \<not> copy_constructible T
                      then uninitialized_move_n T (raw_buffer d) 0 (vec_size v)
                             (raw_buffer new_data) 0
                      else uninitialized_copy_n (raw_buffer d) 0 (vec_size v)
                             (raw_buffer new_data) 0)
                     (RawMemory_dtor new_data))
               (\<lambda>_. bind (destroy_n (raw_buffer d) 0 (vec_size v))
                  (\<lambda>_. let (d1, nd1) = RawMemory_Swap d new_data
                        in bind (set_vec this (v\<lparr>vec_data := d1\<rparr>))
                             (\<lambda>_. RawMemory_dtor nd1)))) s)"

definition Resize :: "'a traits \<Rightarrow> nat \<Rightarrow> nat \<Rightarrow> ('a, unit) mop" where
  "Resize T this new_size s =
     (let v = vecs s this
      in bind
           (if new_size < vec_size v then
              destroy_n (raw_buffer (vec_data v)) new_size (vec_size v - new_size)
            else if new_size > vec_size v then
              bind (if new_size > raw_capacity (vec_data v)
                    then Reserve T this new_size else ret ())
                (\<lambda>_ s1. uninitialized_value_construct_n T
                           (raw_buffer (vec_data (vecs s1 this))) (vec_size v)
                           (new_size - vec_size v) s1)
            else ret ())
           (\<lambda>_ s2. set_vec this ((vecs s2 this)\<lparr>vec_size := new_size\<rparr>) s2) s)"

definition PopBack :: "nat \<Rightarrow> ('a, unit) mop" where
  "PopBack this s =
     (let v = vecs s this
      in bind (assert_that (\<not> IsEmpty s this))
           (\<lambda>_. bind (destroy_at (raw_buffer (vec_data v)) (vec_size v - 1))
              (\<lambda>_. set_vec this (v\<lparr>vec_size := vec_size v - 1\<rparr>))) s)"

text \<open>
  \<^verbatim>\<open>EmplaceBack(args...)\<close>. The result is the slot of the new element.
\<close>

definition EmplaceBack :: "'a traits \<Rightarrow> nat \<Rightarrow> 'a args \<Rightarrow> ('a, nat \<times> nat) mop" where
  "EmplaceBack T this a s =
     (let v = vecs s this; d = vec_data v
      in bind
           (if vec_size v = Capacity s this then
              bind (RawMemory_ctor
                      (if vec_size v = 0 then 1 else (vec_size v * 2) mod 2 ^ 64))
                (\<lambda>new_data.
                   bind (on_throw
                           (bind (RawMemory_plus new_data (vec_size v)) (\<lambda>(p, i).
                              bind (construct_from T (raw_buffer d) a p i) (\<lambda>_.
                                if nothrow_move_constructible T \<or> \<not> copy_constructible T
                                then uninitialized_move_n T (raw_buffer d) 0 (vec_size v)
                                       (raw_buffer new_data) 0
                                else uninitialized_copy_n (raw_buffer d) 0 (vec_size v)
                                       (raw_buffer new_data) 0)))
                           (RawMemory_dtor new_data))
                     (\<lambda>_. bind (destroy_n (raw_buffer d) 0 (vec_size v))
                        (\<lambda>_. let (d1, nd1) = RawMemory_Swap d new_data
                              in bind (set_vec this (v\<lparr>vec_data := d1\<rparr>))
                                   (\<lambda>_. RawMemory_dtor nd1))))
            else bind (RawMemory_plus d (vec_size v))
                   (\<lambda>(p, i). construct_from T (raw_buffer d) a p i))
           (\<lambda>_ s1. let v1 = vecs s1 this
                    in bind (set_vec this (v1\<lparr>vec_size := Suc (vec_size v1)\<rparr>))
                         (\<lambda>_. RawMemory_index (vec_data v1) (Suc (vec_size v1) - 1)) s1) s)"

text \<open>\<^verbatim>\<open>PushBack(Type&& value)\<close> forwards its argument: an lvalue as \<open>Copy\<close>, an rvalue as \<open>Move\<close>.\<close>

definition PushBack :: "'a traits \<Rightarrow> nat \<Rightarrow> 'a args \<Rightarrow> ('a, unit) mop" where
  "PushBack T this a = bind (EmplaceBack T this a) (\<lambda>_. ret ())"

definition EmplaceShift :: "'a traits \<Rightarrow> nat \<Rightarrow> nat \<Rightarrow> 'a args \<Rightarrow> ('a, unit) mop" where
  "EmplaceShift T this index a s =
     (let v = vecs s this; d = vec_data v
      in bind (make_temp T (raw_buffer d) a) (\<lambda>temp_value.
           bind (RawMemory_plus d (vec_size v)) (\<lambda>(dp, di).
             bind (RawMemory_index d (minus_one (vec_size v))) (\<lambda>(sp, si).
               bind (move_construct T sp si dp di) (\<lambda>_.
                 bind (RawMemory_plus d index) (\<lambda>(fp, fi).
                   bind (std_move_backward T fp fi (minus_one (vec_size v) - fi) dp di) (\<lambda>_.
                     bind (RawMemory_index d index) (\<lambda>(ip, ii).
                       bind (move_assign_value T temp_value ip ii) (\<lambda>_.
                         set_vec this (v\<lparr>vec_size := Suc (vec_size v)\<rparr>))))))))) s)"

definition EmplaceReallocate :: "'a traits \<Rightarrow> nat \<Rightarrow> nat \<Rightarrow> 'a args \<Rightarrow> ('a, unit) mop" where
  "EmplaceReallocate T this index a s =
     (let v = vecs s this; d = vec_data v
      in bind (RawMemory_ctor (if vec_size v = 0 then 1 else (vec_size v * 2) mod 2 ^ 64))
           (\<lambda>new_data.
              bind (on_throw
                      (bind (RawMemory_plus new_data index) (\<lambda>(p, i).
                         bind (construct_from T (raw_buffer d) a p i) (\<lambda>_.
                           on_throw
                             (if nothrow_move_constructible T \<or> \<not> copy_constructible T
                              then bind (uninitialized_move_n T (raw_buffer d) 0 index
                                           (raw_buffer new_data) 0)
                                     (\<lambda>_. uninitialized_move_n T (raw_buffer d) index
                                             (vec_size v - index)
                                             (raw_buffer new_data) (index + 1))
                              else bind (uninitialized_copy_n (raw_buffer d) 0 index
                                           (raw_buffer new_data) 0)
                                     (\<lambda>_. uninitialized_copy_n (raw_buffer d) index
                                             (vec_size v - index)
                                             (raw_buffer new_data) (index + 1)))
                             (destroy_n (raw_buffer new_data) index 1))))
                      (RawMemory_dtor new_data))
                (\<lambda>_. bind (destroy_n (raw_buffer d) 0 (vec_size v))
                   (\<lambda>_. let (d1, nd1) = RawMemory_Swap d new_data
                         in bind (set_vec this
                                    (v\<lparr>vec_data := d1, vec_size := Suc (vec_size v)\<rparr>))
                              (\<lambda>_. RawMemory_dtor nd1)))) s)"

text \<open>
  Iterators are offsets from \<^verbatim>\<open>begin()\<close>, so \<^verbatim>\<open>pos - begin()\<close> is \<open>pos\<close> itself and
  the iterator returned is the offset \<open>index\<close>.
\<close>

definition Emplace :: "'a traits \<Rightarrow> nat \<Rightarrow> nat \<Rightarrow> 'a args \<Rightarrow> ('a, nat) mop" where
  "Emplace T this pos a s =
     (let index = pos
      in if vec_size (vecs s this) < Capacity s this then
           (if index = vec_size (vecs s this) then
              bind (EmplaceBack T this a) (\<lambda>_. ret index) s
            else bind (EmplaceShift T this index a) (\<lambda>_. ret index) s)
         else bind (EmplaceReallocate T this index a) (\<lambda>_. ret index) s)"

text \<open>\<^verbatim>\<open>Insert(const_iterator pos, const T& value)\<close>.\<close>

definition Insert :: "'a traits \<Rightarrow> nat \<Rightarrow> nat \<Rightarrow> 'a source \<Rightarrow> ('a, nat) mop" where
  "Insert T this pos val = Emplace T this pos (Copy val)"

text \<open>\<^verbatim>\<open>Insert(const_iterator pos, T&& value)\<close>.\<close>

definition Insert_move :: "'a traits \<Rightarrow> nat \<Rightarrow> nat \<Rightarrow> 'a source \<Rightarrow> ('a, nat) mop" where
  "Insert_move T this pos val = Emplace T this pos (Move val)"

definition Erase :: "'a traits \<Rightarrow> nat \<Rightarrow> nat \<Rightarrow> ('a, nat) mop" where
  "Erase T this pos s =
     (let v = vecs s this; b = raw_buffer (vec_data v); index = pos
      in bind (assert_that (pos < vec_size v))
           (\<lambda>_. bind (std_move T b (index + 1) (vec_size v - (index + 1)) b index)
              (\<lambda>_. bind (PopBack this) (\<lambda>_. ret index))) s)"

text \<open>
  A client that appends the values \<open>ys\<close> one after the other:
  \<^verbatim>\<open>for (const T& y : ys) v.PushBack(y);\<close>
\<close>

fun push_all :: "'a traits \<Rightarrow> nat \<Rightarrow> 'a list \<Rightarrow> ('a, unit) mop" where
  "push_all T this [] s = (Inr (), s)"
| "push_all T this (y # ys) s =
     (case PushBack T this (Copy (External y)) s of
        (Inl e, s1) \<Rightarrow> (Inl e, s1)
      | (Inr _, s1) \<Rightarrow> push_all T this ys s1)"

section \<open>Observations, invariants and example states\<close>

text \<open>
  The capacity sequence of the specification: \<open>capacities n\<close> is the capacity that
  \<open>n\<close> appended elements lead to from the empty vector, when a full buffer grows to
  \<open>max(1, 2 * capacity)\<close> and a buffer with room is kept.
\<close>

fun capacities :: "nat \<Rightarrow> nat" where
  "capacities 0 = 0"
| "capacities (Suc n) =
     (if n < capacities n then capacities n else max 1 (2 * capacities n))"


text \<open>The elements a \<^verbatim>\<open>Vector\<close> holds: the objects in the first \<^verbatim>\<open>size_\<close> slots of its block.\<close>

definition elems :: "'a machine \<Rightarrow> nat \<Rightarrow> 'a list" where
  "elems s this =
     (case block_at s (raw_buffer (vec_data (vecs s this))) of
        None \<Rightarrow> []
      | Some b \<Rightarrow> map the (take (vec_size (vecs s this)) b))"

text \<open>
  \<open>contains s this xs\<close>: the \<^verbatim>\<open>Vector\<close> at \<open>this\<close> is in a good state and holds exactly
  \<open>xs\<close>: its count is the length of \<open>xs\<close> and does not exceed the capacity, the buffer
  is null exactly when the capacity is \<open>0\<close>, and the block has the capacity's number of
  slots, the first ones live with the values \<open>xs\<close>, the others raw.
\<close>

definition contains :: "'a machine \<Rightarrow> nat \<Rightarrow> 'a list \<Rightarrow> bool" where
  "contains s this xs =
     (let v = vecs s this; d = vec_data v
      in vec_size v = length xs \<and> length xs \<le> raw_capacity d \<and>
         ((raw_buffer d = 0) = (raw_capacity d = 0)) \<and>
         (raw_capacity d = 0 \<or>
          block_at s (raw_buffer d)
            = Some (map Some xs @ replicate (raw_capacity d - length xs) None)))"

definition vec_inv :: "'a machine \<Rightarrow> nat \<Rightarrow> bool" where
  "vec_inv s this = contains s this (elems s this)"

text \<open>The invariant of \<^verbatim>\<open>RawMemory\<close>: the buffer is null exactly when the capacity is \<open>0\<close>.\<close>

definition raw_inv :: "RawMemory \<Rightarrow> bool" where
  "raw_inv m = ((raw_buffer m = 0) = (raw_capacity m = 0))"

text \<open>Two \<^verbatim>\<open>Vector\<close> objects do not share a block.\<close>

definition separate :: "'a machine \<Rightarrow> nat \<Rightarrow> nat \<Rightarrow> bool" where
  "separate s a b =
     (raw_buffer (vec_data (vecs s a)) \<noteq> raw_buffer (vec_data (vecs s b)) \<or>
      raw_buffer (vec_data (vecs s a)) = 0)"

definition no_faults :: "'a machine \<Rightarrow> bool" where
  "no_faults s = (throw_budget s = None \<and> alloc_budget s = None)"

text \<open>
  Bookkeeping for the failure budgets: \<open>affordable n b\<close> says that \<open>n\<close> more operations
  succeed under budget \<open>b\<close>, \<open>spend n b\<close> is the budget left after them. A move
  constructor (a move assignment) that cannot throw costs nothing.
\<close>

definition spend :: "nat \<Rightarrow> nat option \<Rightarrow> nat option" where
  "spend n b = map_option (\<lambda>k. k - n) b"

definition affordable :: "nat \<Rightarrow> nat option \<Rightarrow> bool" where
  "affordable n b = (case b of None \<Rightarrow> True | Some k \<Rightarrow> n \<le> k)"

definition move_cost :: "'a traits \<Rightarrow> nat \<Rightarrow> nat" where
  "move_cost T n = (if nothrow_move_constructible T then 0 else n)"

definition assign_cost :: "'a traits \<Rightarrow> nat \<Rightarrow> nat" where
  "assign_cost T n = (if nothrow_move_assignable T then 0 else n)"

text \<open>
  \<open>provides xs a x\<close>: the constructor arguments \<open>a\<close>, given to a vector that holds \<open>xs\<close>,
  construct an object of value \<open>x\<close> and modify no element of the vector: they are
  arguments of another constructor, a reference to an object outside the vector, or an
  lvalue reference to one of its elements. \<open>supplies s buf a x\<close> says the same of the
  buffer \<open>buf\<close> in the state \<open>s\<close>. \<open>arg_cost\<close>, \<open>arg_copies\<close> and \<open>arg_moves\<close>: what the
  construction takes from the throw budget and adds to the call counters.
\<close>

definition provides :: "'a list \<Rightarrow> 'a args \<Rightarrow> 'a \<Rightarrow> bool" where
  "provides xs a x =
     (case a of
        Args y \<Rightarrow> y = x
      | Copy (External y) \<Rightarrow> y = x
      | Copy (Element k) \<Rightarrow> k < length xs \<and> xs ! k = x
      | Move (External y) \<Rightarrow> y = x
      | Move (Element k) \<Rightarrow> False)"

definition supplies :: "'a machine \<Rightarrow> nat \<Rightarrow> 'a args \<Rightarrow> 'a \<Rightarrow> bool" where
  "supplies s buf a x =
     (case a of
        Args y \<Rightarrow> y = x
      | Copy (External y) \<Rightarrow> y = x
      | Copy (Element k) \<Rightarrow> live_at s buf k = Some x
      | Move (External y) \<Rightarrow> y = x
      | Move (Element k) \<Rightarrow> False)"

definition arg_cost :: "'a traits \<Rightarrow> 'a args \<Rightarrow> nat" where
  "arg_cost T a = (case a of Move _ \<Rightarrow> move_cost T 1 | _ \<Rightarrow> 1)"

definition arg_copies :: "'a args \<Rightarrow> nat" where
  "arg_copies a = (case a of Copy _ \<Rightarrow> 1 | _ \<Rightarrow> 0)"

definition arg_moves :: "'a args \<Rightarrow> nat" where
  "arg_moves a = (case a of Move _ \<Rightarrow> 1 | _ \<Rightarrow> 0)"

text \<open>
  The throwing operations of an \<^verbatim>\<open>EmplaceShift\<close> that moves \<open>n\<close> elements besides the
  last one: the construction of the local, the move construction of the last element,
  \<open>n\<close> move assignments and the move assignment of the local.
\<close>

definition shift_cost :: "'a traits \<Rightarrow> 'a args \<Rightarrow> nat \<Rightarrow> nat" where
  "shift_cost T a n = arg_cost T a + move_cost T 1 + assign_cost T n + assign_cost T 1"

text \<open>
  \<open>fits s n\<close>: \<open>n\<close> objects of type \<open>T\<close> take fewer than \<open>2 ^ 64\<close> bytes, so that the
  byte count of a block of \<open>n\<close> slots is representable in \<^verbatim>\<open>size_t\<close>.
\<close>

definition fits :: "'a machine \<Rightarrow> nat \<Rightarrow> bool" where
  "fits s n = (0 < slot_bytes s \<and> n * slot_bytes s < 2 ^ 64)"

text \<open>\<open>overwrite i ys xs\<close>: the list \<open>xs\<close> with \<open>ys\<close> written over it from position \<open>i\<close>.\<close>

definition overwrite :: "nat \<Rightarrow> 'b list \<Rightarrow> 'b list \<Rightarrow> 'b list" where
  "overwrite i ys xs = take i xs @ ys @ drop (i + length ys) xs"

text \<open>
  The layout of the free store: which blocks are allocated, and of how many slots.
  \<open>frame s s'\<close>: from \<open>s\<close> to \<open>s'\<close> no object's fields changed, no block was allocated
  or released, and the allocation budget and the size of a slot are as before; only
  slot contents, the throw budget and the call counters may differ.
\<close>

definition layout :: "'a machine \<Rightarrow> nat option list" where
  "layout s = map (map_option length) (heap s)"

definition frame :: "'a machine \<Rightarrow> 'a machine \<Rightarrow> bool" where
  "frame s s' =
     (vecs s' = vecs s \<and> raws s' = raws s \<and> layout s' = layout s \<and>
      alloc_budget s' = alloc_budget s \<and> slot_bytes s' = slot_bytes s)"

text \<open>
  The transfer policy of a reallocation, as \<^verbatim>\<open>Reserve\<close>, \<^verbatim>\<open>EmplaceBack\<close> and
  \<^verbatim>\<open>EmplaceReallocate\<close> write it out: \<open>by_move T\<close> is the \<^verbatim>\<open>if constexpr\<close> condition,
  \<open>transfer\<close> the selected algorithm, and \<open>left_behind T xs\<close> the values the old block
  holds after the elements \<open>xs\<close> have been transferred out of it.
\<close>

definition by_move :: "'a traits \<Rightarrow> bool" where
  "by_move T = (nothrow_move_constructible T \<or> \<not> copy_constructible T)"

definition transfer :: "'a traits \<Rightarrow> nat \<Rightarrow> nat \<Rightarrow> nat \<Rightarrow> nat \<Rightarrow> nat \<Rightarrow> ('a, unit) mop" where
  "transfer T sp si n dp di =
     (if nothrow_move_constructible T \<or> \<not> copy_constructible T
      then uninitialized_move_n T sp si n dp di
      else uninitialized_copy_n sp si n dp di)"

definition left_behind :: "'a traits \<Rightarrow> 'a list \<Rightarrow> 'a list" where
  "left_behind T xs = (if by_move T then map (moved_from T) xs else xs)"

text \<open>
  \<open>reallocated s this m ys s'\<close>: from \<open>s\<close> to \<open>s'\<close> the vector at \<open>this\<close> has moved into
  one newly allocated block of capacity \<open>m\<close>, where it holds \<open>ys\<close>; its old block is
  released, and every other object and block is as before.
\<close>

definition reallocated :: "'a machine \<Rightarrow> nat \<Rightarrow> nat \<Rightarrow> 'a list \<Rightarrow> 'a machine \<Rightarrow> bool" where
  "reallocated s this m ys s' =
     (vecs s' = (vecs s)(this :=
        \<lparr>vec_data = \<lparr>raw_buffer = Suc (length (heap s)), raw_capacity = m\<rparr>,
         vec_size = length ys\<rparr>) \<and>
      block_at s' = (block_at s)
        (raw_buffer (vec_data (vecs s this)) := None,
         Suc (length (heap s)) := Some (map Some ys @ replicate (m - length ys) None)) \<and>
      length (heap s') = Suc (length (heap s)) \<and>
      raws s' = raws s \<and> slot_bytes s' = slot_bytes s \<and>
      alloc_budget s' = spend 1 (alloc_budget s))"

text \<open>
  \<open>keeps_buffer this s s'\<close>: from \<open>s\<close> to \<open>s'\<close> the vector at \<open>this\<close> has kept its buffer
  and its capacity, no block was allocated or released (\<^verbatim>\<open>operator new\<close> was not
  called), and no other object changed.
\<close>

definition keeps_buffer :: "nat \<Rightarrow> 'a machine \<Rightarrow> 'a machine \<Rightarrow> bool" where
  "keeps_buffer this s s' =
     (vec_data (vecs s' this) = vec_data (vecs s this) \<and>
      (\<forall>q. q \<noteq> this \<longrightarrow> vecs s' q = vecs s q) \<and> raws s' = raws s \<and>
      layout s' = layout s \<and> alloc_budget s' = alloc_budget s)"

text \<open>The state after \<^verbatim>\<open>operator delete(p)\<close> has returned normally.\<close>

definition release :: "nat \<Rightarrow> 'a machine \<Rightarrow> 'a machine" where
  "release p s = (if p = 0 then s else set_block p None s)"

text \<open>A machine for \<^verbatim>\<open>Vector<int>\<close>-like examples: \<^verbatim>\<open>sizeof(T)\<close> is 4 and nothing throws.\<close>

definition empty_machine :: "nat machine" where
  "empty_machine =
     \<lparr>heap = [], slot_bytes = 4, alloc_budget = None, throw_budget = None,
      copy_calls = 0, move_calls = 0,
      raws = (\<lambda>_. RawMemory_default), vecs = (\<lambda>_. Vector_default)\<rparr>"

text \<open>
  Element types for the examples: \<open>int_traits\<close> is \<^verbatim>\<open>int\<close>; \<open>move_only\<close> is a type
  that cannot be copied and whose move constructor may throw, a moved-from object
  having the value \<open>0\<close>; \<open>copyable\<close> is a type whose copy and move constructors may
  both throw.
\<close>

definition int_traits :: "nat traits" where
  "int_traits =
     \<lparr>nothrow_move_constructible = True, copy_constructible = True,
      nothrow_move_assignable = True, value_init = 0, moved_from = (\<lambda>x. x)\<rparr>"

definition move_only :: "nat traits" where
  "move_only =
     \<lparr>nothrow_move_constructible = False, copy_constructible = False,
      nothrow_move_assignable = False, value_init = 0, moved_from = (\<lambda>x. 0)\<rparr>"

definition copyable :: "nat traits" where
  "copyable =
     \<lparr>nothrow_move_constructible = False, copy_constructible = True,
      nothrow_move_assignable = False, value_init = 0, moved_from = (\<lambda>x. 0)\<rparr>"

text \<open>Vector 1 is \<open>[10, 20]\<close> in block 1, vector 2 is \<open>[30]\<close> in block 2.\<close>

definition two_vectors :: "nat machine" where
  "two_vectors = empty_machine
     \<lparr>heap := [Some [Some 10, Some 20], Some [Some 30]],
      vecs := (\<lambda>_. Vector_default)
        (1 := \<lparr>vec_data = \<lparr>raw_buffer = 1, raw_capacity = 2\<rparr>, vec_size = 2\<rparr>,
         2 := \<lparr>vec_data = \<lparr>raw_buffer = 2, raw_capacity = 1\<rparr>, vec_size = 1\<rparr>)\<rparr>"

text \<open>
  \<open>vector_with xs k\<close>: vector 1 holds \<open>xs\<close> in block 1, which has \<open>k\<close> spare slots
  (\<open>xs\<close> and \<open>k\<close> not both empty); nothing else is allocated.
\<close>

definition vector_with :: "nat list \<Rightarrow> nat \<Rightarrow> nat machine" where
  "vector_with xs k = empty_machine
     \<lparr>heap := [Some (map Some xs @ replicate k None)],
      vecs := (\<lambda>_. Vector_default)
        (1 := \<lparr>vec_data = \<lparr>raw_buffer = 1, raw_capacity = length xs + k\<rparr>,
               vec_size = length xs\<rparr>)\<rparr>"

text \<open>\<^verbatim>\<open>RawMemory\<close> 1 owns block 1 of two slots, \<^verbatim>\<open>RawMemory\<close> 2 owns block 2 of three.\<close>

definition two_buffers :: "nat machine" where
  "two_buffers = empty_machine
     \<lparr>heap := [Some [None, None], Some [None, None, None]],
      raws := (\<lambda>_. RawMemory_default)
        (1 := \<lparr>raw_buffer = 1, raw_capacity = 2\<rparr>,
         2 := \<lparr>raw_buffer = 2, raw_capacity = 3\<rparr>)\<rparr>"

text \<open>The state after \<^verbatim>\<open>RawMemory\<close> 2 has been move-assigned into \<^verbatim>\<open>RawMemory\<close> 1.\<close>

definition two_buffers_moved :: "nat machine" where
  "two_buffers_moved = empty_machine
     \<lparr>heap := [None, Some [None, None, None]],
      raws := (\<lambda>_. RawMemory_default)
        (1 := \<lparr>raw_buffer = 2, raw_capacity = 3\<rparr>,
         2 := \<lparr>raw_buffer = 1, raw_capacity = 0\<rparr>)\<rparr>"

section \<open>Store lemmas\<close>

lemma block_at_Some_range: "block_at s p = Some b \<Longrightarrow> 0 < p \<and> p \<le> length (heap s)"
  by (auto simp: block_at_def split: if_splits)

lemma block_at_set_block:
  "0 < p \<Longrightarrow> p \<le> length (heap s) \<Longrightarrow>
   block_at (set_block p b s) q = (if q = p then b else block_at s q)"
  by (auto simp: block_at_def set_block_def nth_list_update)

lemma set_block_same:
  assumes "block_at s p = Some b"
  shows "set_block p (Some b) s = s"
proof -
  have "heap s ! (p - 1) = Some b"
    using assms by (auto simp: block_at_def split: if_splits)
  then have "(heap s)[p - 1 := Some b] = heap s"
    by (metis list_update_id)
  then show ?thesis
    by (simp add: set_block_def)
qed

lemma set_block_twice: "set_block p b (set_block p c s) = set_block p b s"
  by (simp add: set_block_def)

lemma set_block_fields [simp]:
  "length (heap (set_block p b s)) = length (heap s)"
  "vecs (set_block p b s) = vecs s"
  "raws (set_block p b s) = raws s"
  "throw_budget (set_block p b s) = throw_budget s"
  "alloc_budget (set_block p b s) = alloc_budget s"
  "copy_calls (set_block p b s) = copy_calls s"
  "move_calls (set_block p b s) = move_calls s"
  "slot_bytes (set_block p b s) = slot_bytes s"
  by (simp_all add: set_block_def)

lemma block_at_upd [simp]:
  "block_at (s\<lparr>throw_budget := tb\<rparr>) = block_at s"
  "block_at (s\<lparr>alloc_budget := ab\<rparr>) = block_at s"
  "block_at (s\<lparr>copy_calls := c\<rparr>) = block_at s"
  "block_at (s\<lparr>move_calls := m\<rparr>) = block_at s"
  "block_at (s\<lparr>vecs := vs\<rparr>) = block_at s"
  "block_at (s\<lparr>raws := rs\<rparr>) = block_at s"
  by (simp_all add: block_at_def fun_eq_iff)

lemma live_at_upd [simp]:
  "live_at (s\<lparr>throw_budget := tb\<rparr>) = live_at s"
  "live_at (s\<lparr>alloc_budget := ab\<rparr>) = live_at s"
  "live_at (s\<lparr>copy_calls := c\<rparr>) = live_at s"
  "live_at (s\<lparr>move_calls := m\<rparr>) = live_at s"
  "live_at (s\<lparr>vecs := vs\<rparr>) = live_at s"
  "live_at (s\<lparr>raws := rs\<rparr>) = live_at s"
  by (simp_all add: live_at_def fun_eq_iff)

lemma set_block_upd:
  "set_block p b (s\<lparr>throw_budget := tb\<rparr>) = (set_block p b s)\<lparr>throw_budget := tb\<rparr>"
  "set_block p b (s\<lparr>alloc_budget := ab\<rparr>) = (set_block p b s)\<lparr>alloc_budget := ab\<rparr>"
  "set_block p b (s\<lparr>copy_calls := c\<rparr>) = (set_block p b s)\<lparr>copy_calls := c\<rparr>"
  "set_block p b (s\<lparr>move_calls := m\<rparr>) = (set_block p b s)\<lparr>move_calls := m\<rparr>"
  "set_block p b (s\<lparr>vecs := vs\<rparr>) = (set_block p b s)\<lparr>vecs := vs\<rparr>"
  "set_block p b (s\<lparr>raws := rs\<rparr>) = (set_block p b s)\<lparr>raws := rs\<rparr>"
  by (simp_all add: set_block_def)

section \<open>Outcome combinators\<close>

lemma bind_Inr:
  "bind m f s = (Inr r, s') \<longleftrightarrow> (\<exists>x s1. m s = (Inr x, s1) \<and> f x s1 = (Inr r, s'))"
  by (auto simp: bind_def split: prod.splits sum.splits)

lemma bind_Inl:
  "bind m f s = (Inl e, s') \<longleftrightarrow>
     m s = (Inl e, s') \<or> (\<exists>x s1. m s = (Inr x, s1) \<and> f x s1 = (Inl e, s'))"
  by (auto simp: bind_def split: prod.splits sum.splits)

lemma on_throw_Inr: "on_throw m h s = (Inr r, s') \<longleftrightarrow> m s = (Inr r, s')"
  by (auto simp: on_throw_def split: prod.splits sum.splits error.splits)

lemma on_throw_Thrown:
  "on_throw m h s = (Inl Thrown, s') \<longleftrightarrow>
     (\<exists>s1. m s = (Inl Thrown, s1) \<and> (\<exists>u. h s1 = (Inr u, s') \<or> h s1 = (Inl Thrown, s')))"
  by (auto simp: on_throw_def split: prod.splits sum.splits error.splits)

lemma spend_0 [simp]: "spend 0 b = b"
  by (cases b) (simp_all add: spend_def)

lemma spend_spend [simp]: "spend m (spend n b) = spend (n + m) b"
  by (cases b) (simp_all add: spend_def)

lemma spend_None [simp]: "spend n None = None"
  by (simp add: spend_def)

lemma affordable_0 [simp]: "affordable 0 b"
  by (cases b) (simp_all add: affordable_def)

lemma affordable_None [simp]: "affordable n None"
  by (simp add: affordable_def)

lemma affordable_Suc: "affordable (Suc n) b \<longleftrightarrow> affordable 1 b \<and> affordable n (spend 1 b)"
  by (cases b) (auto simp: affordable_def spend_def)

lemma affordable_add: "affordable (m + n) b \<longleftrightarrow> affordable m b \<and> affordable n (spend m b)"
  by (cases b) (auto simp: affordable_def spend_def)

lemma length_overwrite [simp]:
  "i + length ys \<le> length xs \<Longrightarrow> length (overwrite i ys xs) = length xs"
  by (simp add: overwrite_def)

lemma overwrite_Nil [simp]: "overwrite i [] xs = xs"
  by (simp add: overwrite_def)

lemma overwrite_step:
  "i < length xs \<Longrightarrow> overwrite (Suc i) ys (xs[i := y]) = overwrite i (y # ys) xs"
  by (simp add: overwrite_def take_Suc_conv_app_nth)

lemma take_drop_step:
  "i < length xs \<Longrightarrow> take (Suc n) (drop i xs) = xs ! i # take n (drop (Suc i) xs)"
  by (simp add: Cons_nth_drop_Suc [symmetric])

lemma may_throw_exec:
  "affordable 1 (throw_budget s) \<Longrightarrow>
   may_throw s = (Inr (), s\<lparr>throw_budget := spend 1 (throw_budget s)\<rparr>)"
  by (cases s) (auto simp: may_throw_def affordable_def spend_def split: option.splits nat.splits)

lemma may_throw_fail:
  "\<not> affordable 1 (throw_budget s) \<Longrightarrow> may_throw s = (Inl Thrown, s\<lparr>throw_budget := None\<rparr>)"
  by (auto simp: may_throw_def affordable_def split: option.splits nat.splits)

lemma put_slot_exec:
  "block_at s p = Some b \<Longrightarrow> i < length b \<Longrightarrow>
   put_slot p i x s = (Inr (), set_block p (Some (b[i := x])) s)"
  by (simp add: put_slot_def)

lemma live_at_block:
  "block_at s p = Some b \<Longrightarrow> i < length b \<Longrightarrow> live_at s p i = b ! i"
  by (simp add: live_at_def)

lemma block_at_set_block_same:
  "block_at s p = Some b \<Longrightarrow> block_at (set_block p c s) p = c"
  by (frule block_at_Some_range) (simp add: block_at_set_block)

lemma block_at_set_block_other:
  "q \<noteq> p \<Longrightarrow> block_at s p = Some b \<Longrightarrow> block_at (set_block p c s) q = block_at s q"
  by (frule block_at_Some_range) (simp add: block_at_set_block)

lemma set_block_absorb:
  "set_block p b (set_block q c (set_block p b0 s)) = set_block p b (set_block q c s)"
proof (cases "p - 1 = q - 1")
  case True
  then show ?thesis by (simp add: set_block_def)
next
  case False
  then have "(heap s)[p - 1 := b0, q - 1 := c] = (heap s)[q - 1 := c, p - 1 := b0]"
    by (simp add: list_update_swap)
  then show ?thesis
    by (simp add: set_block_def)
qed

lemmas set_block_norm = set_block_upd set_block_twice set_block_absorb

lemma copy_construct_exec:
  assumes "block_at s sp = Some bs" "si < length bs" "bs ! si = Some x"
    and "block_at s dp = Some bd" "di < length bd"
  shows "copy_construct sp si dp di s =
     (if affordable 1 (throw_budget s)
      then (Inr (), (set_block dp (Some (bd[di := Some x])) s)
                      \<lparr>throw_budget := spend 1 (throw_budget s),
                        copy_calls := Suc (copy_calls s)\<rparr>)
      else (Inl Thrown, s\<lparr>throw_budget := None, copy_calls := Suc (copy_calls s)\<rparr>))"
  using assms
  by (simp add: copy_construct_def live_at_block bind_def may_throw_exec may_throw_fail
      put_slot_exec set_block_norm)

lemma destroy_at_exec:
  assumes "block_at s p = Some b" "i < length b" "b ! i \<noteq> None"
  shows "destroy_at p i s = (Inr (), set_block p (Some (b[i := None])) s)"
  using assms by (auto simp: destroy_at_def live_at_block put_slot_exec)

lemma uninitialized_copy_n_exec:
  assumes "block_at s sp = Some bs" "block_at s dp = Some bd" "sp \<noteq> dp"
    and "si + n \<le> length bs" "di + n \<le> length bd"
    and "None \<notin> set (take n (drop si bs))"
    and "set (take n (drop di bd)) \<subseteq> {None}"
  shows "uninitialized_copy_n sp si n dp di s =
     (if affordable n (throw_budget s)
      then (Inr (), (set_block dp (Some (overwrite di (take n (drop si bs)) bd)) s)
                      \<lparr>throw_budget := spend n (throw_budget s),
                        copy_calls := copy_calls s + n\<rparr>)
      else (Inl Thrown, s\<lparr>throw_budget := None,
                           copy_calls := copy_calls s + Suc (the (throw_budget s))\<rparr>))"
  using assms
proof (induction n arbitrary: si di s bd)
  case 0
  then show ?case by (simp add: set_block_same)
next
  case (Suc n)
  from Suc.prems have si: "si < length bs" and di: "di < length bd" by simp_all
  from Suc.prems si obtain x where x: "bs ! si = Some x"
    by (cases "bs ! si") (auto simp: take_drop_step)
  from Suc.prems di have dnone: "bd ! di = None"
    by (auto simp: take_drop_step)
  show ?case
  proof (cases "affordable 1 (throw_budget s)")
    case False
    then have "\<not> affordable (Suc n) (throw_budget s)" "throw_budget s = Some 0"
      by (auto simp: affordable_def split: option.splits)
    with False show ?thesis
      using Suc.prems si di x by (simp add: copy_construct_exec)
  next
    case True
    define s1 where "s1 = (set_block dp (Some (bd[di := Some x])) s)
                      \<lparr>throw_budget := spend 1 (throw_budget s),
                        copy_calls := Suc (copy_calls s)\<rparr>"
    have step: "copy_construct sp si dp di s = (Inr (), s1)"
      using Suc.prems si di x True by (simp add: copy_construct_exec s1_def)
    have b1: "block_at s1 sp = Some bs" "block_at s1 dp = Some (bd[di := Some x])"
      using Suc.prems by (simp_all add: s1_def block_at_set_block_same block_at_set_block_other)
    have pre: "Suc si + n \<le> length bs" "Suc di + n \<le> length (bd[di := Some x])"
      "None \<notin> set (take n (drop (Suc si) bs))"
      "set (take n (drop (Suc di) (bd[di := Some x]))) \<subseteq> {None}"
      using Suc.prems si di by (simp_all add: take_drop_step)
    note IH = Suc.IH [OF b1(1) b1(2) Suc.prems(3) pre]
    have ow: "overwrite (Suc di) (take n (drop (Suc si) bs)) (bd[di := Some x])
              = overwrite di (take (Suc n) (drop si bs)) bd"
      using si di x by (simp add: overwrite_step take_drop_step)
    have unfold1: "uninitialized_copy_n sp si (Suc n) dp di s =
        on_throw (uninitialized_copy_n sp (Suc si) n dp (Suc di)) (destroy_at dp di) s1"
      by (simp add: step)
    have tb1: "throw_budget s1 = spend 1 (throw_budget s)"
      and cc1: "copy_calls s1 = Suc (copy_calls s)"
      by (simp_all add: s1_def)
    have sb1: "set_block dp c s1 = (set_block dp c s)
                      \<lparr>throw_budget := spend 1 (throw_budget s),
                        copy_calls := Suc (copy_calls s)\<rparr>" for c
      by (simp add: s1_def set_block_norm)
    show ?thesis
    proof (cases "affordable n (throw_budget s1)")
      case True
      with \<open>affordable 1 (throw_budget s)\<close> have "affordable (Suc n) (throw_budget s)"
        using affordable_Suc [of n "throw_budget s"] by (simp add: tb1)
      moreover have "uninitialized_copy_n sp (Suc si) n dp (Suc di) s1 =
          (Inr (), (set_block dp (Some (overwrite di (take (Suc n) (drop si bs)) bd)) s)
                      \<lparr>throw_budget := spend (Suc n) (throw_budget s),
                        copy_calls := copy_calls s + Suc n\<rparr>)"
        using IH True by (simp add: ow sb1 tb1 cc1)
      ultimately show ?thesis
        unfolding unfold1 on_throw_def by simp
    next
      case False
      with \<open>affordable 1 (throw_budget s)\<close> have na: "\<not> affordable (Suc n) (throw_budget s)"
        using affordable_Suc [of n "throw_budget s"] by (simp add: tb1)
      from False \<open>affordable 1 (throw_budget s)\<close>
      have "\<exists>k. throw_budget s = Some (Suc k)"
        by (cases "throw_budget s") (auto simp: affordable_def tb1 spend_def intro: Suc_le_D)
      then obtain k where k: "throw_budget s = Some (Suc k)" ..
      define s2 where "s2 = s1\<lparr>throw_budget := None,
               copy_calls := copy_calls s1 + Suc (the (throw_budget s1))\<rparr>"
      have inner: "uninitialized_copy_n sp (Suc si) n dp (Suc di) s1 = (Inl Thrown, s2)"
        using IH False by (simp add: s2_def)
      have bd2: "block_at s2 dp = Some (bd[di := Some x])"
        using b1 by (simp add: s2_def)
      have "(bd[di := Some x])[di := None] = bd"
        using dnone by (metis list_update_id list_update_overwrite)
      then have d: "destroy_at dp di s2 = (Inr (), set_block dp (Some bd) s2)"
        using destroy_at_exec [OF bd2, of di] di by simp
      have "set_block dp (Some bd) s2 = (set_block dp (Some bd) s)
              \<lparr>throw_budget := None, copy_calls := copy_calls s + Suc (Suc k)\<rparr>"
        by (simp add: s2_def s1_def set_block_norm k spend_def)
      also have "set_block dp (Some bd) s = s"
        using Suc.prems(2) by (rule set_block_same)
      finally have fin: "set_block dp (Some bd) s2 =
          s\<lparr>throw_budget := None, copy_calls := copy_calls s + Suc (Suc k)\<rparr>" .
      show ?thesis
        unfolding unfold1 on_throw_def inner using na k by (simp add: d fin)
    qed
  qed
qed

lemma destroy_n_exec:
  assumes "block_at s p = Some b" "i + n \<le> length b" "None \<notin> set (take n (drop i b))"
  shows "destroy_n p i n s = (Inr (), set_block p (Some (overwrite i (replicate n None) b)) s)"
  using assms
proof (induction n arbitrary: i s b)
  case 0
  then show ?case by (simp add: set_block_same)
next
  case (Suc n)
  then have i: "i < length b" by simp
  with Suc.prems have live: "b ! i \<noteq> None"
    by (cases "b ! i") (auto simp: take_drop_step)
  define s1 where "s1 = set_block p (Some (b[i := None])) s"
  have step: "destroy_at p i s = (Inr (), s1)"
    using Suc.prems i live by (simp add: destroy_at_exec s1_def)
  have b1: "block_at s1 p = Some (b[i := None])"
    using Suc.prems by (simp add: s1_def block_at_set_block_same)
  have pre: "Suc i + n \<le> length (b[i := None])"
    "None \<notin> set (take n (drop (Suc i) (b[i := None])))"
    using Suc.prems i by (simp_all add: take_drop_step)
  have "destroy_n p (Suc i) n s1 =
      (Inr (), set_block p (Some (overwrite (Suc i) (replicate n None) (b[i := None]))) s1)"
    by (rule Suc.IH [OF b1 pre])
  then show ?case
    using step i by (simp add: s1_def set_block_norm overwrite_step)
qed


section \<open>Frame\<close>

lemma frame_refl [simp]: "frame s s"
  by (simp add: frame_def)

lemma frame_trans: "frame s s1 \<Longrightarrow> frame s1 s2 \<Longrightarrow> frame s s2"
  by (simp add: frame_def)

lemma frame_upd [simp]:
  "frame s (s'\<lparr>throw_budget := tb\<rparr>) = frame s s'"
  "frame s (s'\<lparr>copy_calls := c\<rparr>) = frame s s'"
  "frame s (s'\<lparr>move_calls := m\<rparr>) = frame s s'"
  "frame (s\<lparr>throw_budget := tb\<rparr>) s' = frame s s'"
  "frame (s\<lparr>copy_calls := c\<rparr>) s' = frame s s'"
  "frame (s\<lparr>move_calls := m\<rparr>) s' = frame s s'"
  by (simp_all add: frame_def layout_def)

lemma layout_set_block:
  "block_at s p = Some b \<Longrightarrow> length c = length b \<Longrightarrow>
   layout (set_block p (Some c) s) = layout s"
  by (auto simp: layout_def set_block_def block_at_def map_update list_update_same_conv
      split: if_splits)

lemma frame_set_block:
  "block_at s p = Some b \<Longrightarrow> length c = length b \<Longrightarrow> frame s (set_block p (Some c) s)"
  by (simp add: frame_def layout_set_block)

lemma frame_block_at:
  "frame s s' \<Longrightarrow> map_option length (block_at s' p) = map_option length (block_at s p)"
proof -
  assume "frame s s'"
  then have l: "layout s' = layout s" by (simp add: frame_def)
  then have len: "length (heap s') = length (heap s)"
    by (metis layout_def length_map)
  show ?thesis
  proof (cases "p = 0 \<or> length (heap s) < p")
    case True
    then show ?thesis by (auto simp: block_at_def len)
  next
    case False
    then have "layout s' ! (p - 1) = layout s ! (p - 1)" using l by simp
    moreover from False have "p - 1 < length (heap s)" by arith
    ultimately have "map_option length (heap s' ! (p - 1)) = map_option length (heap s ! (p - 1))"
      by (simp add: layout_def len)
    with False show ?thesis
      by (simp add: block_at_def len)
  qed
qed

lemma frame_length_heap: "frame s s' \<Longrightarrow> length (heap s') = length (heap s)"
  by (metis frame_def layout_def length_map)

lemma may_throw_frame: "may_throw s = (r, s') \<Longrightarrow> frame s s'"
  by (auto simp: may_throw_def split: option.splits nat.splits)

lemma put_slot_frame: "put_slot p i x s = (r, s') \<Longrightarrow> frame s s'"
  by (auto simp: put_slot_def frame_set_block split: option.splits if_splits)

lemma bind_frame:
  assumes "bind m f s = (r, s')"
    and "\<And>r1 s1. m s = (r1, s1) \<Longrightarrow> frame s s1"
    and "\<And>x s1 r2 s2. m s = (Inr x, s1) \<Longrightarrow> f x s1 = (r2, s2) \<Longrightarrow> frame s1 s2"
  shows "frame s s'"
proof (cases "m s")
  case (Pair r1 s1)
  show ?thesis
  proof (cases r1)
    case (Inl e)
    with Pair assms(1) have "s' = s1" by (simp add: bind_def)
    with assms(2) [OF Pair] show ?thesis by simp
  next
    case (Inr x)
    with Pair assms(1) have "f x s1 = (r, s')" by (simp add: bind_def)
    from assms(3) [OF Pair [unfolded Inr] this] assms(2) [OF Pair]
    show ?thesis by (blast intro: frame_trans)
  qed
qed

lemma on_throw_frame:
  assumes "on_throw m h s = (r, s')"
    and "\<And>r1 s1. m s = (r1, s1) \<Longrightarrow> frame s s1"
    and "\<And>s1 r2 s2. h s1 = (r2, s2) \<Longrightarrow> frame s1 s2"
  shows "frame s s'"
proof (cases "m s")
  case (Pair r1 s1)
  note f1 = assms(2) [OF Pair]
  show ?thesis
  proof (cases "r1 = Inl Thrown")
    case True
    obtain r2 s2 where h: "h s1 = (r2, s2)" by (cases "h s1")
    with Pair True assms(1) have "s' = s2"
      by (auto simp: on_throw_def split: sum.splits)
    with f1 assms(3) [OF h] show ?thesis by (blast intro: frame_trans)
  next
    case False
    with Pair assms(1) have "s' = s1"
      by (auto simp: on_throw_def split: sum.splits error.splits)
    with f1 show ?thesis by simp
  qed
qed

lemma construct_at_frame: "construct_at p i x s = (r, s') \<Longrightarrow> frame s s'"
  unfolding construct_at_def
  by (erule bind_frame) (auto intro: may_throw_frame put_slot_frame)

lemma destroy_at_frame: "destroy_at p i s = (r, s') \<Longrightarrow> frame s s'"
  by (auto simp: destroy_at_def split: option.splits intro: put_slot_frame)

lemma copy_construct_frame: "copy_construct sp si dp di s = (r, s') \<Longrightarrow> frame s s'"
proof -
  assume a: "copy_construct sp si dp di s = (r, s')"
  show ?thesis
  proof (cases "live_at s sp si")
    case None
    with a show ?thesis by (simp add: copy_construct_def)
  next
    case (Some x)
    with a have "bind may_throw (\<lambda>_. put_slot dp di (Some x))
        (s\<lparr>copy_calls := Suc (copy_calls s)\<rparr>) = (r, s')"
      by (simp add: copy_construct_def)
    then have "frame (s\<lparr>copy_calls := Suc (copy_calls s)\<rparr>) s'"
      by (rule bind_frame) (auto dest: may_throw_frame put_slot_frame)
    then show ?thesis by simp
  qed
qed

lemma move_construct_frame: "move_construct T sp si dp di s = (r, s') \<Longrightarrow> frame s s'"
proof -
  assume a: "move_construct T sp si dp di s = (r, s')"
  show ?thesis
  proof (cases "live_at s sp si")
    case None
    with a show ?thesis by (simp add: move_construct_def)
  next
    case (Some x)
    with a have "bind (if nothrow_move_constructible T then ret () else may_throw)
            (\<lambda>_. bind (put_slot dp di (Some x))
               (\<lambda>_. put_slot sp si (Some (moved_from T x))))
        (s\<lparr>move_calls := Suc (move_calls s)\<rparr>) = (r, s')"
      by (simp add: move_construct_def)
    then have "frame (s\<lparr>move_calls := Suc (move_calls s)\<rparr>) s'"
      by (rule bind_frame)
         (auto simp: ret_def split: if_splits
               dest: may_throw_frame intro: put_slot_frame elim!: bind_frame)
    then show ?thesis by simp
  qed
qed

lemma move_assign_frame: "move_assign T sp si dp di s = (r, s') \<Longrightarrow> frame s s'"
proof -
  assume a: "move_assign T sp si dp di s = (r, s')"
  show ?thesis
  proof (cases "\<exists>x y. live_at s sp si = Some x \<and> live_at s dp di = Some y")
    case False
    with a show ?thesis
      by (auto simp: move_assign_def split: option.splits)
  next
    case True
    then obtain x y where "live_at s sp si = Some x" "live_at s dp di = Some y" by blast
    with a have "bind (if nothrow_move_assignable T then ret () else may_throw)
            (\<lambda>_. bind (put_slot dp di (Some x))
               (\<lambda>_. put_slot sp si (Some (moved_from T x)))) s = (r, s')"
      by (simp add: move_assign_def)
    then show ?thesis
      by (rule bind_frame)
         (auto simp: ret_def split: if_splits
               intro: may_throw_frame put_slot_frame elim!: bind_frame)
  qed
qed

lemma move_assign_value_frame: "move_assign_value T x dp di s = (r, s') \<Longrightarrow> frame s s'"
proof -
  assume a: "move_assign_value T x dp di s = (r, s')"
  show ?thesis
  proof (cases "live_at s dp di")
    case None
    with a show ?thesis by (simp add: move_assign_value_def)
  next
    case (Some y)
    with a have "bind (if nothrow_move_assignable T then ret () else may_throw)
            (\<lambda>_. put_slot dp di (Some x)) s = (r, s')"
      by (simp add: move_assign_value_def)
    then show ?thesis
      by (rule bind_frame)
         (auto simp: ret_def split: if_splits intro: may_throw_frame put_slot_frame)
  qed
qed

lemma destroy_n_frame: "destroy_n p i n s = (r, s') \<Longrightarrow> frame s s'"
proof (induction n arbitrary: i s)
  case 0
  then show ?case by simp
next
  case (Suc n)
  obtain r1 s1 where d: "destroy_at p i s = (r1, s1)" by (cases "destroy_at p i s")
  note f1 = destroy_at_frame [OF d]
  show ?case
  proof (cases r1)
    case (Inl e)
    with d Suc.prems f1 show ?thesis by simp
  next
    case (Inr u)
    with d Suc.prems have "destroy_n p (Suc i) n s1 = (r, s')" by simp
    from Suc.IH [OF this] f1 show ?thesis by (rule frame_trans [rotated])
  qed
qed

lemma uninitialized_value_construct_n_frame:
  "uninitialized_value_construct_n T p i n s = (r, s') \<Longrightarrow> frame s s'"
proof (induction n arbitrary: i s r s')
  case 0
  then show ?case by simp
next
  case (Suc n)
  obtain r1 s1 where d: "construct_at p i (value_init T) s = (r1, s1)"
    by (cases "construct_at p i (value_init T) s")
  note f1 = construct_at_frame [OF d]
  show ?case
  proof (cases r1)
    case (Inl e)
    with d Suc.prems f1 show ?thesis by simp
  next
    case (Inr u)
    with d Suc.prems have
      "on_throw (uninitialized_value_construct_n T p (Suc i) n) (destroy_at p i) s1 = (r, s')"
      by simp
    then have "frame s1 s'"
      by (rule on_throw_frame) (auto intro: Suc.IH destroy_at_frame)
    with f1 show ?thesis by (rule frame_trans)
  qed
qed

lemma uninitialized_copy_n_frame:
  "uninitialized_copy_n sp si n dp di s = (r, s') \<Longrightarrow> frame s s'"
proof (induction n arbitrary: si di s r s')
  case 0
  then show ?case by simp
next
  case (Suc n)
  obtain r1 s1 where d: "copy_construct sp si dp di s = (r1, s1)"
    by (cases "copy_construct sp si dp di s")
  note f1 = copy_construct_frame [OF d]
  show ?case
  proof (cases r1)
    case (Inl e)
    with d Suc.prems f1 show ?thesis by simp
  next
    case (Inr u)
    with d Suc.prems have
      "on_throw (uninitialized_copy_n sp (Suc si) n dp (Suc di)) (destroy_at dp di) s1 = (r, s')"
      by simp
    then have "frame s1 s'"
      by (rule on_throw_frame) (auto intro: Suc.IH destroy_at_frame)
    with f1 show ?thesis by (rule frame_trans)
  qed
qed

lemma uninitialized_move_n_frame:
  "uninitialized_move_n T sp si n dp di s = (r, s') \<Longrightarrow> frame s s'"
proof (induction n arbitrary: si di s r s')
  case 0
  then show ?case by simp
next
  case (Suc n)
  obtain r1 s1 where d: "move_construct T sp si dp di s = (r1, s1)"
    by (cases "move_construct T sp si dp di s")
  note f1 = move_construct_frame [OF d]
  show ?case
  proof (cases r1)
    case (Inl e)
    with d Suc.prems f1 show ?thesis by simp
  next
    case (Inr u)
    with d Suc.prems have
      "on_throw (uninitialized_move_n T sp (Suc si) n dp (Suc di)) (destroy_at dp di) s1 = (r, s')"
      by simp
    then have "frame s1 s'"
      by (rule on_throw_frame) (auto intro: Suc.IH destroy_at_frame)
    with f1 show ?thesis by (rule frame_trans)
  qed
qed

lemma std_move_frame: "std_move T sp si n dp di s = (r, s') \<Longrightarrow> frame s s'"
proof (induction n arbitrary: si di s)
  case 0
  then show ?case by simp
next
  case (Suc n)
  obtain r1 s1 where d: "move_assign T sp si dp di s = (r1, s1)"
    by (cases "move_assign T sp si dp di s")
  note f1 = move_assign_frame [OF d]
  show ?case
  proof (cases r1)
    case (Inl e)
    with d Suc.prems f1 show ?thesis by simp
  next
    case (Inr u)
    with d Suc.prems have "std_move T sp (Suc si) n dp (Suc di) s1 = (r, s')" by simp
    from Suc.IH [OF this] f1 show ?thesis by (rule frame_trans [rotated])
  qed
qed

lemma std_move_backward_frame:
  "std_move_backward T sp si n dp dend s = (r, s') \<Longrightarrow> frame s s'"
proof (induction n arbitrary: dend s)
  case 0
  then show ?case by simp
next
  case (Suc n)
  show ?case
  proof (cases "dend = 0")
    case True
    with Suc.prems show ?thesis by simp
  next
    case False
    obtain r1 s1 where d: "move_assign T sp (si + n) dp (dend - 1) s = (r1, s1)"
      by (cases "move_assign T sp (si + n) dp (dend - 1) s")
    note f1 = move_assign_frame [OF d]
    show ?thesis
    proof (cases r1)
      case (Inl e)
      with d Suc.prems f1 False show ?thesis by simp
    next
      case (Inr u)
      with d Suc.prems False
      have "std_move_backward T sp si n dp (dend - 1) s1 = (r, s')" by simp
      from Suc.IH [OF this] f1 show ?thesis by (rule frame_trans [rotated])
    qed
  qed
qed

section \<open>Budgets along successful runs\<close>

lemma may_throw_Inr:
  "may_throw s = (Inr u, s') \<Longrightarrow>
   affordable 1 (throw_budget s) \<and> throw_budget s' = spend 1 (throw_budget s)"
  by (auto simp: may_throw_def affordable_def spend_def split: option.splits nat.splits)

lemma put_slot_budget: "put_slot p i x s = (r, s') \<Longrightarrow> throw_budget s' = throw_budget s"
  by (auto simp: put_slot_def split: option.splits if_splits)

lemma move_cost_Suc:
  "affordable (move_cost T (Suc n)) b \<longleftrightarrow>
   affordable (move_cost T 1) b \<and> affordable (move_cost T n) (spend (move_cost T 1) b)"
  using affordable_Suc [of n b] by (simp add: move_cost_def)

lemma assign_cost_Suc:
  "affordable (assign_cost T (Suc n)) b \<longleftrightarrow>
   affordable (assign_cost T 1) b \<and> affordable (assign_cost T n) (spend (assign_cost T 1) b)"
  using affordable_Suc [of n b] by (simp add: assign_cost_def)

lemma move_cost_add: "move_cost T (Suc 0) + move_cost T n = move_cost T (Suc n)"
  by (simp add: move_cost_def)

lemma assign_cost_add: "assign_cost T (Suc 0) + assign_cost T n = assign_cost T (Suc n)"
  by (simp add: assign_cost_def)

lemma move_construct_Inr:
  "move_construct T sp si dp di s = (Inr u, s') \<Longrightarrow>
   affordable (move_cost T 1) (throw_budget s) \<and>
   throw_budget s' = spend (move_cost T 1) (throw_budget s)"
  by (auto simp: move_construct_def move_cost_def bind_Inr ret_def
      split: option.splits if_splits dest!: may_throw_Inr put_slot_budget)

lemma move_assign_Inr:
  "move_assign T sp si dp di s = (Inr u, s') \<Longrightarrow>
   affordable (assign_cost T 1) (throw_budget s) \<and>
   throw_budget s' = spend (assign_cost T 1) (throw_budget s)"
  by (auto simp: move_assign_def assign_cost_def bind_Inr ret_def
      split: option.splits if_splits dest!: may_throw_Inr put_slot_budget)

lemma move_assign_value_Inr:
  "move_assign_value T x dp di s = (Inr u, s') \<Longrightarrow>
   affordable (assign_cost T 1) (throw_budget s)"
  by (auto simp: move_assign_value_def assign_cost_def bind_Inr ret_def
      split: option.splits if_splits dest!: may_throw_Inr put_slot_budget)

lemma construct_at_Inr:
  "construct_at p i x s = (Inr u, s') \<Longrightarrow> affordable 1 (throw_budget s)"
  by (auto simp: construct_at_def bind_Inr dest!: may_throw_Inr)

lemma uninitialized_move_n_Inr:
  "uninitialized_move_n T sp si n dp di s = (Inr u, s') \<Longrightarrow>
   affordable (move_cost T n) (throw_budget s)"
proof (induction n arbitrary: si di s)
  case 0
  then show ?case by (simp add: move_cost_def)
next
  case (Suc n)
  from Suc.prems obtain s1 where
    st: "move_construct T sp si dp di s = (Inr (), s1)" and
    re: "uninitialized_move_n T sp (Suc si) n dp (Suc di) s1 = (Inr u, s')"
    by (auto simp: on_throw_Inr split: prod.splits sum.splits)
  from move_construct_Inr [OF st] Suc.IH [OF re] show ?case
    by (simp add: move_cost_Suc [of T n])
qed

lemma std_move_Inr:
  "std_move T sp si n dp di s = (Inr u, s') \<Longrightarrow>
   affordable (assign_cost T n) (throw_budget s)"
proof (induction n arbitrary: si di s)
  case 0
  then show ?case by (simp add: assign_cost_def)
next
  case (Suc n)
  from Suc.prems obtain s1 where
    st: "move_assign T sp si dp di s = (Inr (), s1)" and
    re: "std_move T sp (Suc si) n dp (Suc di) s1 = (Inr u, s')"
    by (auto split: prod.splits sum.splits)
  from move_assign_Inr [OF st] Suc.IH [OF re] show ?case
    by (simp add: assign_cost_Suc [of T n])
qed

lemma std_move_backward_Inr:
  "std_move_backward T sp si n dp dend s = (Inr u, s') \<Longrightarrow>
   affordable (assign_cost T n) (throw_budget s)"
proof (induction n arbitrary: dend s)
  case 0
  then show ?case by (simp add: assign_cost_def)
next
  case (Suc n)
  from Suc.prems obtain s1 where
    st: "move_assign T sp (si + n) dp (dend - 1) s = (Inr (), s1)" and
    re: "std_move_backward T sp si n dp (dend - 1) s1 = (Inr u, s')"
    by (auto split: prod.splits sum.splits if_splits)
  from move_assign_Inr [OF st] Suc.IH [OF re] show ?case
    by (simp add: assign_cost_Suc [of T n])
qed

section \<open>Moves between two blocks\<close>

lemma move_construct_exec:
  assumes "block_at s sp = Some bs" "si < length bs" "bs ! si = Some x"
    and "block_at s dp = Some bd" "di < length bd" "sp \<noteq> dp"
    and "affordable (move_cost T 1) (throw_budget s)"
  shows "move_construct T sp si dp di s =
     (Inr (), (set_block sp (Some (bs[si := Some (moved_from T x)]))
                (set_block dp (Some (bd[di := Some x])) s))
                \<lparr>throw_budget := spend (move_cost T 1) (throw_budget s),
                  move_calls := Suc (move_calls s)\<rparr>)"
proof -
  have b2: "block_at (set_block dp (Some (bd[di := Some x])) s) sp = Some bs"
    using assms by (simp add: block_at_set_block_other)
  show ?thesis
  proof (cases "nothrow_move_constructible T")
    case True
    with assms b2 show ?thesis
      by (simp add: move_construct_def live_at_block bind_def ret_def put_slot_exec
          set_block_norm move_cost_def)
  next
    case False
    with assms b2 show ?thesis
      by (simp add: move_construct_def live_at_block bind_def may_throw_exec put_slot_exec
          set_block_norm move_cost_def)
  qed
qed

lemma uninitialized_move_n_exec:
  assumes "block_at s sp = Some bs" "block_at s dp = Some bd" "sp \<noteq> dp"
    and "si + n \<le> length bs" "di + n \<le> length bd"
    and "None \<notin> set (take n (drop si bs))"
    and "affordable (move_cost T n) (throw_budget s)"
  shows "uninitialized_move_n T sp si n dp di s =
     (Inr (), (set_block sp
                 (Some (overwrite si (map (map_option (moved_from T)) (take n (drop si bs))) bs))
                 (set_block dp (Some (overwrite di (take n (drop si bs)) bd)) s))
                \<lparr>throw_budget := spend (move_cost T n) (throw_budget s),
                  move_calls := move_calls s + n\<rparr>)"
  using assms
proof (induction n arbitrary: si di s bs bd)
  case 0
  then show ?case by (simp add: set_block_same block_at_set_block_other move_cost_def)
next
  case (Suc n)
  from Suc.prems have si: "si < length bs" and di: "di < length bd" by simp_all
  from Suc.prems si obtain x where x: "bs ! si = Some x"
    by (cases "bs ! si") (auto simp: take_drop_step)
  from Suc.prems(7) have a1: "affordable (move_cost T 1) (throw_budget s)"
    and an: "affordable (move_cost T n) (spend (move_cost T 1) (throw_budget s))"
    by (simp_all add: move_cost_Suc [of T n])
  let ?bs1 = "bs[si := Some (moved_from T x)]"
  let ?bd1 = "bd[di := Some x]"
  define s1 where "s1 = (set_block sp (Some ?bs1) (set_block dp (Some ?bd1) s))
                \<lparr>throw_budget := spend (move_cost T 1) (throw_budget s),
                  move_calls := Suc (move_calls s)\<rparr>"
  have step: "move_construct T sp si dp di s = (Inr (), s1)"
    using Suc.prems si di x a1 by (simp add: move_construct_exec s1_def)
  have bdp: "block_at (set_block dp (Some ?bd1) s) sp = Some bs"
    using Suc.prems by (simp add: block_at_set_block_other)
  have b1: "block_at s1 sp = Some ?bs1" "block_at s1 dp = Some ?bd1"
    using Suc.prems bdp
    by (simp_all add: s1_def block_at_set_block_same block_at_set_block_other)
  have pre: "Suc si + n \<le> length ?bs1" "Suc di + n \<le> length ?bd1"
    "None \<notin> set (take n (drop (Suc si) ?bs1))"
    "affordable (move_cost T n) (throw_budget s1)"
    using Suc.prems si di an by (simp_all add: take_drop_step s1_def)
  note IH = Suc.IH [OF b1(1) b1(2) Suc.prems(3) pre]
  have tk: "take n (drop (Suc si) ?bs1) = take n (drop (Suc si) bs)"
    by simp
  have ow1: "overwrite (Suc di) (take n (drop (Suc si) bs)) ?bd1
              = overwrite di (take (Suc n) (drop si bs)) bd"
    using si di x by (simp add: overwrite_step take_drop_step)
  have ow2: "overwrite (Suc si) (map (map_option (moved_from T)) (take n (drop (Suc si) bs))) ?bs1
              = overwrite si (map (map_option (moved_from T)) (take (Suc n) (drop si bs))) bs"
    using si x by (simp add: overwrite_step take_drop_step)
  have sb1: "set_block sp c (set_block dp c' s1) = (set_block sp c (set_block dp c' s))
                \<lparr>throw_budget := spend (move_cost T 1) (throw_budget s),
                  move_calls := Suc (move_calls s)\<rparr>" for c c'
    by (simp add: s1_def set_block_norm)
  have "uninitialized_move_n T sp (Suc si) n dp (Suc di) s1 =
     (Inr (), (set_block sp
                 (Some (overwrite si (map (map_option (moved_from T)) (take (Suc n) (drop si bs))) bs))
                 (set_block dp (Some (overwrite di (take (Suc n) (drop si bs)) bd)) s))
                \<lparr>throw_budget := spend (move_cost T (Suc n)) (throw_budget s),
                  move_calls := move_calls s + Suc n\<rparr>)"
    unfolding IH tk ow1 ow2 sb1
    by (simp add: s1_def move_cost_add)
  then show ?case
    by (simp add: step on_throw_def)
qed

section \<open>Moves inside one block\<close>

lemma move_assign_exec:
  assumes "block_at s p = Some b" "si < length b" "di < length b"
    and "b ! si = Some x" "b ! di \<noteq> None"
    and "affordable (assign_cost T 1) (throw_budget s)"
  shows "move_assign T p si p di s =
     (Inr (), (set_block p (Some (b[di := Some x, si := Some (moved_from T x)])) s)
                \<lparr>throw_budget := spend (assign_cost T 1) (throw_budget s)\<rparr>)"
proof -
  from assms obtain y where y: "b ! di = Some y" by (cases "b ! di") auto
  have b2: "block_at (set_block p (Some (b[di := Some x])) s) p = Some (b[di := Some x])"
    using assms by (simp add: block_at_set_block_same)
  have b3: "block_at (set_block p (Some (b[di := Some x])) s\<lparr>throw_budget := tb\<rparr>) p
            = Some (b[di := Some x])" for tb
    using b2 by simp
  show ?thesis
  proof (cases "nothrow_move_assignable T")
    case True
    with assms y b2 show ?thesis
      by (simp add: move_assign_def live_at_block bind_def ret_def put_slot_exec
          set_block_norm assign_cost_def)
  next
    case False
    with assms y b2 show ?thesis
      by (simp add: move_assign_def live_at_block bind_def may_throw_exec put_slot_exec
          set_block_norm assign_cost_def)
  qed
qed

lemma move_assign_value_exec:
  assumes "block_at s p = Some b" "i < length b" "b ! i \<noteq> None"
    and "affordable (assign_cost T 1) (throw_budget s)"
  shows "move_assign_value T x p i s =
     (Inr (), (set_block p (Some (b[i := Some x])) s)
                \<lparr>throw_budget := spend (assign_cost T 1) (throw_budget s)\<rparr>)"
proof -
  from assms obtain y where y: "b ! i = Some y" by (cases "b ! i") auto
  show ?thesis
  proof (cases "nothrow_move_assignable T")
    case True
    with assms y show ?thesis
      by (simp add: move_assign_value_def live_at_block bind_def ret_def put_slot_exec
          set_block_norm assign_cost_def)
  next
    case False
    with assms y show ?thesis
      by (simp add: move_assign_value_def live_at_block bind_def may_throw_exec put_slot_exec
          set_block_norm assign_cost_def)
  qed
qed

text \<open>
  \<^verbatim>\<open>std::move\<close> one slot to the left: the elements \<open>B\<close> move over the hole \<open>h\<close>; the
  last slot of the range is left moved-from.
\<close>

lemma std_move_exec:
  assumes "block_at s p = Some (map Some A @ Some h # map Some B @ R)"
    and "affordable (assign_cost T (length B)) (throw_budget s)"
  shows "std_move T p (Suc (length A)) (length B) p (length A) s =
     (Inr (), (set_block p
                 (Some (map Some (A @ B) @
                        Some (if B = [] then h else moved_from T (last B)) # R)) s)
                \<lparr>throw_budget := spend (assign_cost T (length B)) (throw_budget s)\<rparr>)"
  using assms
proof (induction B arbitrary: A h s)
  case Nil
  then show ?case by (simp add: set_block_same assign_cost_def)
next
  case (Cons y B)
  let ?b = "map Some A @ Some h # map Some (y # B) @ R"
  let ?b1 = "map Some (A @ [y]) @ Some (moved_from T y) # map Some B @ R"
  from Cons.prems(2) have a1: "affordable (assign_cost T 1) (throw_budget s)"
    and an: "affordable (assign_cost T (length B)) (spend (assign_cost T 1) (throw_budget s))"
    by (simp_all add: assign_cost_Suc [of T "length B"])
  have idx: "Suc (length A) < length ?b" "length A < length ?b"
    "?b ! Suc (length A) = Some y" "?b ! length A \<noteq> None"
    by (simp_all add: nth_append)
  have upd: "?b[length A := Some y, Suc (length A) := Some (moved_from T y)] = ?b1"
    by (simp add: list_update_append)
  define s1 where "s1 = (set_block p (Some ?b1) s)
                \<lparr>throw_budget := spend (assign_cost T 1) (throw_budget s)\<rparr>"
  have step: "move_assign T p (Suc (length A)) p (length A) s = (Inr (), s1)"
    using move_assign_exec [OF Cons.prems(1) idx a1] by (simp only: upd s1_def)
  have b1: "block_at s1 p = Some ?b1"
    using Cons.prems(1) by (simp add: s1_def block_at_set_block_same)
  have an1: "affordable (assign_cost T (length B)) (throw_budget s1)"
    using an by (simp add: s1_def)
  have IH: "std_move T p (Suc (length (A @ [y]))) (length B) p (length (A @ [y])) s1 =
     (Inr (), (set_block p
                 (Some (map Some ((A @ [y]) @ B) @
                        Some (if B = [] then moved_from T y else moved_from T (last B)) # R)) s1)
                \<lparr>throw_budget := spend (assign_cost T (length B)) (throw_budget s1)\<rparr>)"
    by (rule Cons.IH [OF b1 an1])
  have "std_move T p (Suc (length A)) (length (y # B)) p (length A) s
        = std_move T p (Suc (Suc (length A))) (length B) p (Suc (length A)) s1"
    by (simp add: step)
  also have "\<dots> = (Inr (), (set_block p
                 (Some (map Some ((A @ [y]) @ B) @
                        Some (if B = [] then moved_from T y else moved_from T (last B)) # R)) s1)
                \<lparr>throw_budget := spend (assign_cost T (length B)) (throw_budget s1)\<rparr>)"
    using IH by simp
  also have "\<dots> = (Inr (), (set_block p
                 (Some (map Some (A @ y # B) @
                        Some (if y # B = [] then h else moved_from T (last (y # B))) # R)) s)
                \<lparr>throw_budget := spend (assign_cost T (length (y # B))) (throw_budget s)\<rparr>)"
    by (simp add: s1_def set_block_norm assign_cost_add)
  finally show ?case .
qed

text \<open>
  \<^verbatim>\<open>std::move_backward\<close> one slot to the right: the elements \<open>B\<close> move over the hole
  \<open>h\<close> behind them; the first slot of the range is left moved-from.
\<close>

lemma std_move_backward_exec:
  assumes "block_at s p = Some (map Some A @ map Some B @ Some h # R)"
    and "affordable (assign_cost T (length B)) (throw_budget s)"
  shows "std_move_backward T p (length A) (length B) p (Suc (length A + length B)) s =
     (Inr (), (set_block p
                 (Some (map Some A @
                        Some (if B = [] then h else moved_from T (hd B)) # map Some B @ R)) s)
                \<lparr>throw_budget := spend (assign_cost T (length B)) (throw_budget s)\<rparr>)"
  using assms
proof (induction B arbitrary: h R s rule: rev_induct)
  case Nil
  then show ?case by (simp add: set_block_same assign_cost_def)
next
  case (snoc y B)
  let ?b = "map Some A @ map Some (B @ [y]) @ Some h # R"
  let ?b1 = "map Some A @ map Some B @ Some (moved_from T y) # Some y # R"
  let ?n = "length A + length B"
  from snoc.prems(2) have a1: "affordable (assign_cost T 1) (throw_budget s)"
    and an: "affordable (assign_cost T (length B)) (spend (assign_cost T 1) (throw_budget s))"
    by (simp_all add: assign_cost_Suc [of T "length B"])
  have idx: "?n < length ?b" "Suc ?n < length ?b"
    "?b ! ?n = Some y" "?b ! Suc ?n \<noteq> None"
    by (simp_all add: nth_append)
  have upd: "?b[Suc ?n := Some y, ?n := Some (moved_from T y)] = ?b1"
    by (simp add: list_update_append)
  define s1 where "s1 = (set_block p (Some ?b1) s)
                \<lparr>throw_budget := spend (assign_cost T 1) (throw_budget s)\<rparr>"
  have step: "move_assign T p ?n p (Suc ?n) s = (Inr (), s1)"
    using move_assign_exec [OF snoc.prems(1) idx a1] by (simp only: upd s1_def)
  have b1: "block_at s1 p = Some ?b1"
    using snoc.prems(1) by (simp add: s1_def block_at_set_block_same)
  have an1: "affordable (assign_cost T (length B)) (throw_budget s1)"
    using an by (simp add: s1_def)
  have IH: "std_move_backward T p (length A) (length B) p (Suc ?n) s1 =
     (Inr (), (set_block p
                 (Some (map Some A @
                        Some (if B = [] then moved_from T y else moved_from T (hd B))
                        # map Some B @ Some y # R)) s1)
                \<lparr>throw_budget := spend (assign_cost T (length B)) (throw_budget s1)\<rparr>)"
    by (rule snoc.IH [OF b1 an1])
  have "std_move_backward T p (length A) (length (B @ [y])) p
          (Suc (length A + length (B @ [y]))) s
        = std_move_backward T p (length A) (length B) p (Suc ?n) s1"
    by (simp add: step)
  also have "\<dots> = (Inr (), (set_block p
                 (Some (map Some A @
                        Some (if B = [] then moved_from T y else moved_from T (hd B))
                        # map Some B @ Some y # R)) s1)
                \<lparr>throw_budget := spend (assign_cost T (length B)) (throw_budget s1)\<rparr>)"
    by (rule IH)
  also have "\<dots> = (Inr (), (set_block p
                 (Some (map Some A @
                        Some (if B @ [y] = [] then h else moved_from T (hd (B @ [y])))
                        # map Some (B @ [y]) @ R)) s)
                \<lparr>throw_budget := spend (assign_cost T (length (B @ [y]))) (throw_budget s)\<rparr>)"
    by (cases B) (simp_all add: s1_def set_block_norm assign_cost_add)
  finally show ?case .
qed

section \<open>Budgets along successful runs of the loops\<close>

lemma destroy_at_budget: "destroy_at p i s = (r, s') \<Longrightarrow> throw_budget s' = throw_budget s"
  by (auto simp: destroy_at_def split: option.splits dest: put_slot_budget)

lemma destroy_n_budget: "destroy_n p i n s = (r, s') \<Longrightarrow> throw_budget s' = throw_budget s"
proof (induction n arbitrary: i s)
  case 0
  then show ?case by simp
next
  case (Suc n)
  obtain r1 s1 where d: "destroy_at p i s = (r1, s1)" by (cases "destroy_at p i s")
  note b1 = destroy_at_budget [OF d]
  show ?case
  proof (cases r1)
    case (Inl e)
    with d Suc.prems b1 show ?thesis by simp
  next
    case (Inr u)
    with d Suc.prems have "destroy_n p (Suc i) n s1 = (r, s')" by simp
    from Suc.IH [OF this] b1 show ?thesis by simp
  qed
qed

lemma copy_construct_Inr:
  "copy_construct sp si dp di s = (Inr u, s') \<Longrightarrow>
   affordable 1 (throw_budget s) \<and> throw_budget s' = spend 1 (throw_budget s)"
  by (auto simp: copy_construct_def bind_Inr split: option.splits
      dest!: may_throw_Inr put_slot_budget)

lemma construct_at_Inr_budget:
  "construct_at p i x s = (Inr u, s') \<Longrightarrow>
   affordable 1 (throw_budget s) \<and> throw_budget s' = spend 1 (throw_budget s)"
  by (auto simp: construct_at_def bind_Inr dest!: may_throw_Inr put_slot_budget)

lemma uninitialized_copy_n_Inr:
  "uninitialized_copy_n sp si n dp di s = (Inr u, s') \<Longrightarrow>
   affordable n (throw_budget s) \<and> throw_budget s' = spend n (throw_budget s)"
proof (induction n arbitrary: si di s)
  case 0
  then show ?case by simp
next
  case (Suc n)
  from Suc.prems obtain s1 where
    st: "copy_construct sp si dp di s = (Inr (), s1)" and
    re: "uninitialized_copy_n sp (Suc si) n dp (Suc di) s1 = (Inr u, s')"
    by (auto simp: on_throw_Inr split: prod.splits sum.splits)
  from copy_construct_Inr [OF st] Suc.IH [OF re] show ?case
    using affordable_Suc [of n "throw_budget s"] by simp
qed

lemma uninitialized_value_construct_n_Inr:
  "uninitialized_value_construct_n T p i n s = (Inr u, s') \<Longrightarrow>
   affordable n (throw_budget s) \<and> throw_budget s' = spend n (throw_budget s)"
proof (induction n arbitrary: i s)
  case 0
  then show ?case by simp
next
  case (Suc n)
  from Suc.prems obtain s1 where
    st: "construct_at p i (value_init T) s = (Inr (), s1)" and
    re: "uninitialized_value_construct_n T p (Suc i) n s1 = (Inr u, s')"
    by (auto simp: on_throw_Inr split: prod.splits sum.splits)
  from construct_at_Inr_budget [OF st] Suc.IH [OF re] show ?case
    using affordable_Suc [of n "throw_budget s"] by simp
qed

lemma uninitialized_move_n_Inr_budget:
  "uninitialized_move_n T sp si n dp di s = (Inr u, s') \<Longrightarrow>
   throw_budget s' = spend (move_cost T n) (throw_budget s)"
proof (induction n arbitrary: si di s)
  case 0
  then show ?case by (simp add: move_cost_def)
next
  case (Suc n)
  from Suc.prems obtain s1 where
    st: "move_construct T sp si dp di s = (Inr (), s1)" and
    re: "uninitialized_move_n T sp (Suc si) n dp (Suc di) s1 = (Inr u, s')"
    by (auto simp: on_throw_Inr split: prod.splits sum.splits)
  from move_construct_Inr [OF st] Suc.IH [OF re] show ?case
    by (simp add: move_cost_add)
qed

lemma std_move_Inr_budget:
  "std_move T sp si n dp di s = (Inr u, s') \<Longrightarrow>
   throw_budget s' = spend (assign_cost T n) (throw_budget s)"
proof (induction n arbitrary: si di s)
  case 0
  then show ?case by (simp add: assign_cost_def)
next
  case (Suc n)
  from Suc.prems obtain s1 where
    st: "move_assign T sp si dp di s = (Inr (), s1)" and
    re: "std_move T sp (Suc si) n dp (Suc di) s1 = (Inr u, s')"
    by (auto split: prod.splits sum.splits)
  from move_assign_Inr [OF st] Suc.IH [OF re] show ?case
    by (simp add: assign_cost_add)
qed

lemma std_move_backward_Inr_budget:
  "std_move_backward T sp si n dp dend s = (Inr u, s') \<Longrightarrow>
   throw_budget s' = spend (assign_cost T n) (throw_budget s)"
proof (induction n arbitrary: dend s)
  case 0
  then show ?case by (simp add: assign_cost_def)
next
  case (Suc n)
  from Suc.prems obtain s1 where
    st: "move_assign T sp (si + n) dp (dend - 1) s = (Inr (), s1)" and
    re: "std_move_backward T sp si n dp (dend - 1) s1 = (Inr u, s')"
    by (auto split: prod.splits sum.splits if_splits)
  from move_assign_Inr [OF st] Suc.IH [OF re] show ?case
    by (simp add: assign_cost_add)
qed

section \<open>Operations that never throw\<close>

lemma put_slot_not_Thrown: "put_slot p i x s \<noteq> (Inl Thrown, s')"
  by (auto simp: put_slot_def split: option.splits)

lemma destroy_at_not_Thrown: "destroy_at p i s \<noteq> (Inl Thrown, s')"
  by (auto simp: destroy_at_def put_slot_not_Thrown split: option.splits)

lemma destroy_n_not_Thrown: "destroy_n p i n s \<noteq> (Inl Thrown, s')"
proof (induction n arbitrary: i s)
  case 0
  then show ?case by simp
next
  case (Suc n)
  then show ?case
    by (auto simp: destroy_at_not_Thrown split: prod.splits sum.splits)
qed

lemma Deallocate_not_Thrown: "Deallocate p s \<noteq> (Inl Thrown, s')"
  by (auto simp: Deallocate_def split: option.splits)

lemma move_construct_nothrow:
  "nothrow_move_constructible T \<Longrightarrow> move_construct T sp si dp di s \<noteq> (Inl Thrown, s')"
  by (auto simp: move_construct_def bind_Inl ret_def put_slot_not_Thrown split: option.splits)

lemma uninitialized_move_n_nothrow:
  "nothrow_move_constructible T \<Longrightarrow> uninitialized_move_n T sp si n dp di s \<noteq> (Inl Thrown, s')"
proof (induction n arbitrary: si di s s')
  case 0
  then show ?case by simp
next
  case (Suc n)
  show ?case
  proof
    assume a: "uninitialized_move_n T sp si (Suc n) dp di s = (Inl Thrown, s')"
    obtain r1 s1 where d: "move_construct T sp si dp di s = (r1, s1)"
      by (cases "move_construct T sp si dp di s")
    show False
    proof (cases r1)
      case (Inl e)
      with a d have "move_construct T sp si dp di s = (Inl Thrown, s')" by simp
      with move_construct_nothrow [OF Suc.prems] show False by blast
    next
      case (Inr u)
      with a d have "on_throw (uninitialized_move_n T sp (Suc si) n dp (Suc di))
           (destroy_at dp di) s1 = (Inl Thrown, s')" by simp
      then obtain s2 where "uninitialized_move_n T sp (Suc si) n dp (Suc di) s1 = (Inl Thrown, s2)"
        by (auto simp: on_throw_Thrown)
      with Suc.IH [OF Suc.prems] show False by blast
    qed
  qed
qed

section \<open>Footprints: blocks an operation does not write\<close>

lemma put_slot_other:
  "put_slot p i x s = (r, s') \<Longrightarrow> q \<noteq> p \<Longrightarrow> block_at s' q = block_at s q"
  by (auto simp: put_slot_def block_at_set_block_other split: option.splits if_splits)

lemma may_throw_blocks: "may_throw s = (r, s') \<Longrightarrow> block_at s' = block_at s"
  by (auto simp: may_throw_def split: option.splits nat.splits)

lemma construct_at_other:
  "construct_at p i x s = (r, s') \<Longrightarrow> q \<noteq> p \<Longrightarrow> block_at s' q = block_at s q"
  by (auto simp: construct_at_def bind_def split: prod.splits sum.splits
      dest!: may_throw_blocks dest: put_slot_other)

lemma destroy_at_other:
  "destroy_at p i s = (r, s') \<Longrightarrow> q \<noteq> p \<Longrightarrow> block_at s' q = block_at s q"
  by (auto simp: destroy_at_def split: option.splits dest: put_slot_other)

lemma destroy_n_other:
  "destroy_n p i n s = (r, s') \<Longrightarrow> q \<noteq> p \<Longrightarrow> block_at s' q = block_at s q"
proof (induction n arbitrary: i s)
  case 0
  then show ?case by simp
next
  case (Suc n)
  obtain r1 s1 where d: "destroy_at p i s = (r1, s1)" by (cases "destroy_at p i s")
  note b1 = destroy_at_other [OF d Suc.prems(2)]
  show ?case
  proof (cases r1)
    case (Inl e)
    with d Suc.prems b1 show ?thesis by simp
  next
    case (Inr u)
    with d Suc.prems have "destroy_n p (Suc i) n s1 = (r, s')" by simp
    from Suc.IH [OF this Suc.prems(2)] b1 show ?thesis by simp
  qed
qed

lemma copy_construct_other:
  "copy_construct sp si dp di s = (r, s') \<Longrightarrow> q \<noteq> dp \<Longrightarrow> block_at s' q = block_at s q"
  by (auto simp: copy_construct_def bind_def split: option.splits prod.splits sum.splits
      dest!: may_throw_blocks dest: put_slot_other)

lemma on_throw_other:
  assumes "on_throw m h s = (r, s')"
    and "\<And>r1 s1. m s = (r1, s1) \<Longrightarrow> block_at s1 q = block_at s q"
    and "\<And>s1 r2 s2. h s1 = (r2, s2) \<Longrightarrow> block_at s2 q = block_at s1 q"
  shows "block_at s' q = block_at s q"
proof (cases "m s")
  case (Pair r1 s1)
  note f1 = assms(2) [OF Pair]
  show ?thesis
  proof (cases "r1 = Inl Thrown")
    case True
    obtain r2 s2 where h: "h s1 = (r2, s2)" by (cases "h s1")
    with Pair True assms(1) have "s' = s2"
      by (auto simp: on_throw_def split: sum.splits)
    with f1 assms(3) [OF h] show ?thesis by simp
  next
    case False
    with Pair assms(1) have "s' = s1"
      by (auto simp: on_throw_def split: sum.splits error.splits)
    with f1 show ?thesis by simp
  qed
qed

lemma uninitialized_copy_n_other:
  "uninitialized_copy_n sp si n dp di s = (r, s') \<Longrightarrow> q \<noteq> dp \<Longrightarrow>
   block_at s' q = block_at s q"
proof (induction n arbitrary: si di s r s')
  case 0
  then show ?case by simp
next
  case (Suc n)
  obtain r1 s1 where d: "copy_construct sp si dp di s = (r1, s1)"
    by (cases "copy_construct sp si dp di s")
  note b1 = copy_construct_other [OF d Suc.prems(2)]
  show ?case
  proof (cases r1)
    case (Inl e)
    with d Suc.prems b1 show ?thesis by simp
  next
    case (Inr u)
    with d Suc.prems have
      "on_throw (uninitialized_copy_n sp (Suc si) n dp (Suc di)) (destroy_at dp di) s1 = (r, s')"
      by simp
    then have "block_at s' q = block_at s1 q"
    proof (rule on_throw_other)
      fix r1 s1a
      assume "uninitialized_copy_n sp (Suc si) n dp (Suc di) s1 = (r1, s1a)"
      then show "block_at s1a q = block_at s1 q"
        using Suc.prems(2) by (rule Suc.IH)
    next
      fix s1 r2 s2
      assume "destroy_at dp di s1 = (r2, s2)"
      then show "block_at s2 q = block_at s1 q"
        using Suc.prems(2) by (rule destroy_at_other)
    qed
    with b1 show ?thesis by simp
  qed
qed

section \<open>Allocation\<close>

lemma block_at_append:
  "block_at (s\<lparr>heap := heap s @ [c]\<rparr>) q =
     (if q = Suc (length (heap s)) then c else block_at s q)"
  by (auto simp: block_at_def nth_append)

lemma fits_slots:
  assumes "fits s n"
  shows "(n * slot_bytes s) mod 2 ^ 64 div slot_bytes s = n"
  using assms by (simp add: fits_def)

lemma fits_mono: "fits s n \<Longrightarrow> m \<le> n \<Longrightarrow> fits s m"
  unfolding fits_def
  by (metis le_less_trans mult_le_mono1)

lemma fits_bound: "fits s n \<Longrightarrow> n < 2 ^ 64"
  unfolding fits_def
  by (metis One_nat_def Suc_leI le_less_trans mult.right_neutral mult_le_mono2)

lemma RawMemory_ctor_exec:
  "n \<noteq> 0 \<Longrightarrow> fits s n \<Longrightarrow> affordable 1 (alloc_budget s) \<Longrightarrow>
   RawMemory_ctor n s =
     (Inr \<lparr>raw_buffer = Suc (length (heap s)), raw_capacity = n\<rparr>,
      s\<lparr>heap := heap s @ [Some (replicate n None)],
        alloc_budget := spend 1 (alloc_budget s)\<rparr>)"
  by (cases s)
     (auto simp: RawMemory_ctor_def Allocate_def operator_new_def bind_def ret_def
        affordable_def spend_def fits_def
      split: option.splits nat.splits)

lemma RawMemory_ctor_Inr:
  "RawMemory_ctor n s = (Inr m, s') \<Longrightarrow> n \<noteq> 0 \<Longrightarrow>
   affordable 1 (alloc_budget s) \<and> throw_budget s' = throw_budget s"
  by (auto simp: RawMemory_ctor_def Allocate_def operator_new_def bind_def ret_def
        affordable_def
      split: option.splits nat.splits if_splits)

lemma RawMemory_ctor_Thrown:
  "RawMemory_ctor n s = (Inl e, s') \<Longrightarrow>
   e = Thrown \<and> s' = s\<lparr>alloc_budget := None\<rparr> \<and> alloc_budget s \<noteq> None"
  by (auto simp: RawMemory_ctor_def Allocate_def operator_new_def bind_def ret_def
      split: option.splits nat.splits if_splits)

lemma RawMemory_ctor_fail:
  "n \<noteq> 0 \<Longrightarrow> \<not> affordable 1 (alloc_budget s) \<Longrightarrow>
   RawMemory_ctor n s = (Inl Thrown, s\<lparr>alloc_budget := None\<rparr>)"
  by (auto simp: RawMemory_ctor_def Allocate_def operator_new_def bind_def ret_def
        affordable_def
      split: option.splits nat.splits if_splits)

lemma RawMemory_ctor_zero:
  "RawMemory_ctor 0 s = (Inr \<lparr>raw_buffer = 0, raw_capacity = 0\<rparr>, s)"
  by (simp add: RawMemory_ctor_def Allocate_def bind_def ret_def)

lemma Deallocate_exec:
  "block_at s p = Some b \<Longrightarrow> Deallocate p s = (Inr (), set_block p None s)"
  by (frule block_at_Some_range) (simp add: Deallocate_def)

lemma Deallocate_null [simp]: "Deallocate 0 s = (Inr (), s)"
  by (simp add: Deallocate_def)

lemma Deallocate_other:
  "Deallocate p s = (r, s') \<Longrightarrow> q \<noteq> p \<Longrightarrow> block_at s' q = block_at s q"
  by (auto simp: Deallocate_def block_at_set_block_other split: if_splits option.splits)

lemma Deallocate_vecs: "Deallocate p s = (r, s') \<Longrightarrow> vecs s' = vecs s"
  by (auto simp: Deallocate_def split: if_splits option.splits)

section \<open>Vectors in a good state\<close>

lemma containsD:
  assumes "contains s this xs"
  shows "vec_size (vecs s this) = length xs"
    and "length xs \<le> raw_capacity (vec_data (vecs s this))"
    and "(raw_buffer (vec_data (vecs s this)) = 0) = (raw_capacity (vec_data (vecs s this)) = 0)"
    and "raw_capacity (vec_data (vecs s this)) \<noteq> 0 \<Longrightarrow>
         block_at s (raw_buffer (vec_data (vecs s this)))
           = Some (map Some xs @ replicate (raw_capacity (vec_data (vecs s this)) - length xs) None)"
  using assms by (auto simp: contains_def Let_def)

lemma containsI:
  assumes "vec_size (vecs s this) = length xs"
    and "length xs \<le> raw_capacity (vec_data (vecs s this))"
    and "(raw_buffer (vec_data (vecs s this)) = 0) = (raw_capacity (vec_data (vecs s this)) = 0)"
    and "raw_capacity (vec_data (vecs s this)) \<noteq> 0 \<Longrightarrow>
         block_at s (raw_buffer (vec_data (vecs s this)))
           = Some (map Some xs @ replicate (raw_capacity (vec_data (vecs s this)) - length xs) None)"
  shows "contains s this xs"
  using assms by (auto simp: contains_def Let_def)

lemma block_at_null [simp]: "block_at s 0 = None"
  by (simp add: block_at_def)

lemma contains_elems: "contains s this xs \<Longrightarrow> elems s this = xs"
  by (cases "raw_capacity (vec_data (vecs s this)) = 0")
     (auto simp: contains_def Let_def elems_def comp_def)

lemma vec_inv_iff: "vec_inv s this \<longleftrightarrow> (\<exists>xs. contains s this xs)"
  by (auto simp: vec_inv_def dest: contains_elems)

lemma vec_inv_contains: "vec_inv s this \<Longrightarrow> contains s this (elems s this)"
  by (simp add: vec_inv_def)

lemma contains_inv: "contains s this xs \<Longrightarrow> vec_inv s this"
  by (auto simp: vec_inv_iff)

lemma RawMemory_upd_eq:
  "(d::RawMemory)\<lparr>raw_buffer := a, raw_capacity := b\<rparr> = \<lparr>raw_buffer = a, raw_capacity = b\<rparr>"
  by (cases d) simp

lemma Vector_upd_eq:
  "(v::Vector)\<lparr>vec_data := d, vec_size := n\<rparr> = \<lparr>vec_data = d, vec_size = n\<rparr>"
  by (cases v) simp

lemma spare_slot_update:
  "n < c \<Longrightarrow> length ys = n \<Longrightarrow>
   (ys @ replicate (c - n) z)[n := y] = ys @ y # replicate (c - Suc n) z"
proof -
  assume "n < c" "length ys = n"
  then have "c - n = Suc (c - Suc n)" by arith
  with \<open>length ys = n\<close> show ?thesis by (simp add: list_update_append)
qed

section \<open>Construction from arguments\<close>

lemma supplies_cases:
  assumes "supplies s buf a x"
  obtains "a = Args x" | "a = Copy (External x)" | "a = Move (External x)"
    | k where "a = Copy (Element k)" "live_at s buf k = Some x"
  using assms unfolding supplies_def
  by (auto split: args.splits source.splits)

lemma supplies_cong:
  "block_at s' buf = block_at s buf \<Longrightarrow> supplies s' buf a x = supplies s buf a x"
  by (simp add: supplies_def live_at_def split: args.splits source.splits)

lemma provides_supplies:
  assumes c: "contains s this xs" and p: "provides xs a x"
  shows "supplies s (raw_buffer (vec_data (vecs s this))) a x"
proof -
  have "live_at s (raw_buffer (vec_data (vecs s this))) k = Some (xs ! k)"
    if k: "k < length xs" for k
  proof -
    note cD = containsD [OF c]
    from k cD(2) have cap: "raw_capacity (vec_data (vecs s this)) \<noteq> 0" by auto
    from cD(4) [OF cap] k show ?thesis
      by (simp add: live_at_def nth_append)
  qed
  with p show ?thesis
    by (auto simp: provides_def supplies_def split: args.splits source.splits)
qed

lemma construct_from_exec:
  assumes o: "supplies s buf a x" and b: "block_at s p = Some b" and i: "i < length b"
    and aff: "affordable (arg_cost T a) (throw_budget s)"
  shows "construct_from T buf a p i s =
     (Inr (), (set_block p (Some (b[i := Some x])) s)
        \<lparr>throw_budget := spend (arg_cost T a) (throw_budget s),
          copy_calls := copy_calls s + arg_copies a,
          move_calls := move_calls s + arg_moves a\<rparr>)"
  using o
proof (cases rule: supplies_cases)
  case 1
  with b i aff show ?thesis
    by (simp add: construct_from_def construct_at_def bind_def may_throw_exec put_slot_exec
        arg_cost_def arg_copies_def arg_moves_def set_block_norm)
next
  case 2
  with b i aff show ?thesis
    by (simp add: construct_from_def bind_def may_throw_exec put_slot_exec
        arg_cost_def arg_copies_def arg_moves_def set_block_norm)
next
  case 3
  show ?thesis
  proof (cases "nothrow_move_constructible T")
    case True
    with 3 b i show ?thesis
      by (simp add: construct_from_def bind_def ret_def put_slot_exec move_cost_def spend_0
          arg_cost_def arg_copies_def arg_moves_def set_block_norm)
  next
    case False
    with 3 b i aff show ?thesis
      by (simp add: construct_from_def bind_def may_throw_exec put_slot_exec move_cost_def
          arg_cost_def arg_copies_def arg_moves_def set_block_norm)
  qed
next
  case (4 k)
  with b i aff show ?thesis
    by (simp add: construct_from_def copy_construct_def bind_def may_throw_exec put_slot_exec
        arg_cost_def arg_copies_def arg_moves_def set_block_norm)
qed

lemma make_temp_exec:
  assumes o: "supplies s buf a x" and aff: "affordable (arg_cost T a) (throw_budget s)"
  shows "make_temp T buf a s =
     (Inr x, s\<lparr>throw_budget := spend (arg_cost T a) (throw_budget s),
               copy_calls := copy_calls s + arg_copies a,
               move_calls := move_calls s + arg_moves a\<rparr>)"
  using o
proof (cases rule: supplies_cases)
  case 1
  with aff show ?thesis
    by (simp add: make_temp_def bind_def ret_def may_throw_exec
        arg_cost_def arg_copies_def arg_moves_def)
next
  case 2
  with aff show ?thesis
    by (simp add: make_temp_def bind_def ret_def may_throw_exec
        arg_cost_def arg_copies_def arg_moves_def)
next
  case 3
  show ?thesis
  proof (cases "nothrow_move_constructible T")
    case True
    with 3 show ?thesis
      by (simp add: make_temp_def bind_def ret_def move_cost_def spend_0
          arg_cost_def arg_copies_def arg_moves_def)
  next
    case False
    with 3 aff show ?thesis
      by (simp add: make_temp_def bind_def ret_def may_throw_exec move_cost_def
          arg_cost_def arg_copies_def arg_moves_def)
  qed
next
  case (4 k)
  with aff show ?thesis
    by (simp add: make_temp_def bind_def ret_def may_throw_exec
        arg_cost_def arg_copies_def arg_moves_def)
qed

section \<open>EmplaceBack without reallocation\<close>

lemma EmplaceBack_inplace_exec:
  assumes c: "contains s this xs"
    and room: "length xs < Capacity s this"
    and pr: "provides xs a x"
    and aff: "affordable (arg_cost T a) (throw_budget s)"
  shows "EmplaceBack T this a s =
     (Inr (raw_buffer (vec_data (vecs s this)), length xs),
      (set_block (raw_buffer (vec_data (vecs s this)))
         (Some (map Some (xs @ [x]) @ replicate (Capacity s this - Suc (length xs)) None)) s)
       \<lparr>throw_budget := spend (arg_cost T a) (throw_budget s),
         copy_calls := copy_calls s + arg_copies a,
         move_calls := move_calls s + arg_moves a,
         vecs := (vecs s)(this := (vecs s this)\<lparr>vec_size := Suc (length xs)\<rparr>)\<rparr>)"
proof -
  let ?v = "vecs s this"
  let ?d = "vec_data ?v"
  let ?p = "raw_buffer ?d"
  let ?c = "raw_capacity ?d"
  let ?b = "map Some xs @ replicate (?c - length xs) None"
  let ?b1 = "map Some (xs @ [x]) @ replicate (?c - Suc (length xs)) None"
  note cD = containsD [OF c]
  note o = provides_supplies [OF c pr]
  from room have cap: "?c \<noteq> 0" "length xs < ?c" by (simp_all add: Capacity_def)
  have blk: "block_at s ?p = Some ?b" using cD(4) cap by simp
  have upd: "?b[length xs := Some x] = ?b1"
    using cap spare_slot_update [of "length xs" ?c "map Some xs" None "Some x"] by simp
  define s1 where "s1 = (set_block ?p (Some ?b1) s)
      \<lparr>throw_budget := spend (arg_cost T a) (throw_budget s),
        copy_calls := copy_calls s + arg_copies a,
        move_calls := move_calls s + arg_moves a\<rparr>"
  have c0: "(vec_size ?v = Capacity s this) = False"
    using room cD(1) by simp
  have st1: "RawMemory_plus ?d (vec_size ?v) s = (Inr (?p, length xs), s)"
    using cD(1) cap by (simp add: RawMemory_plus_def assert_that_def bind_def ret_def)
  have st2: "construct_from T ?p a ?p (length xs) s = (Inr (), s1)"
    using construct_from_exec [OF o blk _ aff, of "length xs"] cap
    by (simp add: upd s1_def)
  have v1: "vecs s1 this = ?v" by (simp add: s1_def)
  have st3: "set_vec this (?v\<lparr>vec_size := Suc (vec_size ?v)\<rparr>) s1
      = (Inr (), s1\<lparr>vecs := (vecs s)(this := ?v\<lparr>vec_size := Suc (length xs)\<rparr>)\<rparr>)"
    using cD(1) by (simp add: set_vec_def s1_def)
  have st4: "RawMemory_index ?d (Suc (vec_size ?v) - 1) s' = (Inr (?p, length xs), s')" for s'
    using cD(1) cap by (simp add: RawMemory_index_def assert_that_def bind_def ret_def)
  have "EmplaceBack T this a s =
     (Inr (?p, length xs), s1\<lparr>vecs := (vecs s)(this := ?v\<lparr>vec_size := Suc (length xs)\<rparr>)\<rparr>)"
    by (simp only: EmplaceBack_def Let_def bind_def c0 if_False st1 st2 v1 st3 st4
        prod.case sum.case)
  then show ?thesis
    by (simp add: s1_def Capacity_def)
qed

section \<open>The loops on vector-shaped blocks\<close>

lemma overwrite_mid:
  "length ys = length B \<Longrightarrow> overwrite (length A) ys (A @ B @ C) = A @ ys @ C"
  by (simp add: overwrite_def)

lemma take_drop_mid: "take (length B) (drop (length A) (A @ B @ C)) = B"
  by simp

lemma destroy_n_vec:
  assumes "block_at s p = Some (A @ map Some ys @ R)"
  shows "destroy_n p (length A) (length ys) s
         = (Inr (), set_block p (Some (A @ replicate (length ys) None @ R)) s)"
proof -
  have "None \<notin> set (take (length ys) (drop (length A) (A @ map Some ys @ R)))"
    by auto
  from destroy_n_exec [OF assms _ this]
  show ?thesis
    using overwrite_mid [of "replicate (length ys) None" "map Some ys" A R] by simp
qed


lemma uninitialized_copy_n_vec:
  assumes "block_at s sp = Some (A @ map Some B @ C)"
    and "block_at s dp = Some (D1 @ replicate (length B) None @ D2)"
    and "sp \<noteq> dp" and "affordable (length B) (throw_budget s)"
  shows "uninitialized_copy_n sp (length A) (length B) dp (length D1) s
         = (Inr (), (set_block dp (Some (D1 @ map Some B @ D2)) s)
                      \<lparr>throw_budget := spend (length B) (throw_budget s),
                        copy_calls := copy_calls s + length B\<rparr>)"
proof -
  have src: "take (length B) (drop (length A) (A @ map Some B @ C)) = map Some B"
    by simp
  have live: "None \<notin> set (take (length B) (drop (length A) (A @ map Some B @ C)))"
    unfolding src by auto
  have raw: "set (take (length B) (drop (length D1) (D1 @ replicate (length B) None @ D2)))
             \<subseteq> {None}"
    by auto
  from uninitialized_copy_n_exec [OF assms(1,2,3) _ _ live raw]
  show ?thesis
    using assms(4) overwrite_mid [of "map Some B" "replicate (length B) None" D1 D2]
    by (simp add: src)
qed

lemma uninitialized_move_n_vec:
  assumes "block_at s sp = Some (A @ map Some B @ C)"
    and "block_at s dp = Some (D1 @ replicate (length B) None @ D2)"
    and "sp \<noteq> dp" and "affordable (move_cost T (length B)) (throw_budget s)"
  shows "uninitialized_move_n T sp (length A) (length B) dp (length D1) s
         = (Inr (), (set_block sp (Some (A @ map Some (map (moved_from T) B) @ C))
                      (set_block dp (Some (D1 @ map Some B @ D2)) s))
                      \<lparr>throw_budget := spend (move_cost T (length B)) (throw_budget s),
                        move_calls := move_calls s + length B\<rparr>)"
proof -
  have src: "take (length B) (drop (length A) (A @ map Some B @ C)) = map Some B"
    by simp
  have live: "None \<notin> set (take (length B) (drop (length A) (A @ map Some B @ C)))"
    unfolding src by auto
  have mf: "map (map_option (moved_from T)) (map Some B) = map Some (map (moved_from T) B)"
    by simp
  from uninitialized_move_n_exec [OF assms(1,2,3) _ _ live assms(4)]
  show ?thesis
    using overwrite_mid [of "map Some B" "replicate (length B) None" D1 D2]
      overwrite_mid [of "map Some (map (moved_from T) B)" "map Some B" A C]
    by (simp add: src mf del: map_map)
qed

lemma transfer_vec:
  assumes "block_at s sp = Some (A @ map Some B @ C)"
    and "block_at s dp = Some (D1 @ replicate (length B) None @ D2)"
    and "sp \<noteq> dp" and "affordable (move_cost T (length B)) (throw_budget s)"
  shows "transfer T sp (length A) (length B) dp (length D1) s
         = (Inr (), (set_block sp (Some (A @ map Some (left_behind T B) @ C))
                      (set_block dp (Some (D1 @ map Some B @ D2)) s))
                      \<lparr>throw_budget := spend (move_cost T (length B)) (throw_budget s),
                        copy_calls := copy_calls s + (if by_move T then 0 else length B),
                        move_calls := move_calls s + (if by_move T then length B else 0)\<rparr>)"
proof (cases "by_move T")
  case True
  with uninitialized_move_n_vec [OF assms] show ?thesis
    by (simp add: transfer_def by_move_def left_behind_def)
next
  case False
  then have nt: "\<not> nothrow_move_constructible T" by (simp add: by_move_def)
  then have cost: "move_cost T (length B) = length B" by (simp add: move_cost_def)
  have keep: "block_at (set_block dp (Some (D1 @ map Some B @ D2)) s) sp
              = Some (A @ map Some B @ C)"
    using assms(1,2,3) by (simp add: block_at_set_block_other)
  from uninitialized_copy_n_vec [OF assms(1,2,3)] assms(4) False show ?thesis
    by (simp add: transfer_def by_move_def [symmetric] left_behind_def cost
        set_block_same [OF keep])
qed

lemma transfer_empty [simp]: "transfer T sp si 0 dp di s = (Inr (), s)"
  by (simp add: transfer_def)

lemma transfer_Inr:
  "transfer T sp si n dp di s = (Inr u, s') \<Longrightarrow>
   affordable (move_cost T n) (throw_budget s) \<and>
   throw_budget s' = spend (move_cost T n) (throw_budget s)"
proof (cases "by_move T")
  case True
  assume "transfer T sp si n dp di s = (Inr u, s')"
  with True have "uninitialized_move_n T sp si n dp di s = (Inr u, s')"
    by (simp add: transfer_def by_move_def)
  from uninitialized_move_n_Inr [OF this] uninitialized_move_n_Inr_budget [OF this]
  show ?thesis by simp
next
  case False
  assume "transfer T sp si n dp di s = (Inr u, s')"
  with False have "uninitialized_copy_n sp si n dp di s = (Inr u, s')"
    by (simp add: transfer_def by_move_def)
  from uninitialized_copy_n_Inr [OF this] False show ?thesis
    by (simp add: move_cost_def by_move_def)
qed

lemma transfer_frame: "transfer T sp si n dp di s = (r, s') \<Longrightarrow> frame s s'"
  by (auto simp: transfer_def split: if_splits
      intro: uninitialized_move_n_frame uninitialized_copy_n_frame)

text \<open>A failed transfer of a copyable or nothrow-movable type leaves all other blocks.\<close>

lemma transfer_Thrown_other:
  assumes "transfer T sp si n dp di s = (Inl Thrown, s')"
    and "nothrow_move_constructible T \<or> copy_constructible T" and "q \<noteq> dp"
  shows "block_at s' q = block_at s q"
proof (cases "nothrow_move_constructible T")
  case True
  with assms(1) have "uninitialized_move_n T sp si n dp di s = (Inl Thrown, s')"
    by (simp add: transfer_def)
  with uninitialized_move_n_nothrow [OF True] show ?thesis by blast
next
  case False
  with assms(1,2) have "uninitialized_copy_n sp si n dp di s = (Inl Thrown, s')"
    by (simp add: transfer_def)
  from uninitialized_copy_n_other [OF this assms(3)] show ?thesis .
qed

section \<open>Retiring the old block\<close>

lemma release_fields [simp]:
  "vecs (release p s) = vecs s"
  "raws (release p s) = raws s"
  "throw_budget (release p s) = throw_budget s"
  "alloc_budget (release p s) = alloc_budget s"
  "copy_calls (release p s) = copy_calls s"
  "move_calls (release p s) = move_calls s"
  "length (heap (release p s)) = length (heap s)"
  by (simp_all add: release_def)

lemma block_at_release:
  "p = 0 \<or> block_at s p \<noteq> None \<Longrightarrow> block_at (release p s) = (block_at s)(p := None)"
  by (auto simp: release_def fun_eq_iff block_at_set_block_same block_at_set_block_other)

lemma Deallocate_release:
  "p = 0 \<or> block_at s p \<noteq> None \<Longrightarrow> Deallocate p s = (Inr (), release p s)"
  by (auto simp: release_def Deallocate_exec)

text \<open>
  The tail of every reallocation: destroy the old elements, adopt the new fields, and
  let the destructor of the local release the old block.
\<close>

lemma retire_old:
  assumes "p = 0 \<and> n = 0 \<or> (\<exists>zs R. block_at s p = Some (map Some zs @ R) \<and> length zs = n)"
  shows "\<exists>s'. bind (destroy_n p 0 n)
            (\<lambda>_. bind (set_vec this v')
               (\<lambda>_. RawMemory_dtor \<lparr>raw_buffer = p, raw_capacity = c\<rparr>)) s = (Inr (), s') \<and>
          vecs s' = (vecs s)(this := v') \<and>
          block_at s' = (block_at s)(p := None) \<and>
          length (heap s') = length (heap s) \<and> raws s' = raws s \<and>
          throw_budget s' = throw_budget s \<and> alloc_budget s' = alloc_budget s \<and>
          copy_calls s' = copy_calls s \<and> move_calls s' = move_calls s \<and>
          slot_bytes s' = slot_bytes s"
  using assms
proof (elim disjE conjE exE)
  assume "p = 0" "n = 0"
  then show ?thesis
    by (simp add: bind_def set_vec_def RawMemory_dtor_def fun_eq_iff)
next
  fix zs R
  assume b: "block_at s p = Some (map Some zs @ R)" and n: "length zs = n"
  define s1 where "s1 = set_block p (Some (replicate n None @ R)) s"
  define s2 where "s2 = s1\<lparr>vecs := (vecs s1)(this := v')\<rparr>"
  have st1: "destroy_n p 0 n s = (Inr (), s1)"
    using destroy_n_vec [of s p "[]" zs R] b n by (simp add: s1_def)
  have st2: "set_vec this v' s1 = (Inr (), s2)"
    by (simp add: set_vec_def s2_def)
  have b1: "block_at s1 p = Some (replicate n None @ R)"
    using b by (simp add: s1_def block_at_set_block_same)
  have o1: "block_at s1 q = block_at s q" if "q \<noteq> p" for q
    using b that by (simp add: s1_def block_at_set_block_other)
  have b2: "block_at s2 p = Some (replicate n None @ R)"
    using b1 by (simp add: s2_def)
  have st3: "RawMemory_dtor \<lparr>raw_buffer = p, raw_capacity = c\<rparr> s2
             = (Inr (), set_block p None s2)"
    using Deallocate_exec [OF b2] by (simp add: RawMemory_dtor_def)
  have run: "bind (destroy_n p 0 n)
            (\<lambda>_. bind (set_vec this v')
               (\<lambda>_. RawMemory_dtor \<lparr>raw_buffer = p, raw_capacity = c\<rparr>)) s
             = (Inr (), set_block p None s2)"
    by (simp add: bind_def st1 st2 st3)
  have bl: "block_at (set_block p None s2) = (block_at s)(p := None)"
  proof
    fix q
    show "block_at (set_block p None s2) q = ((block_at s)(p := None)) q"
    proof (cases "q = p")
      case True
      then show ?thesis using b2 by (simp add: block_at_set_block_same)
    next
      case False
      then have "block_at (set_block p None s2) q = block_at s2 q"
        using b2 by (simp add: block_at_set_block_other)
      also have "\<dots> = block_at s1 q" by (simp add: s2_def)
      also have "\<dots> = block_at s q" using False by (rule o1)
      finally show ?thesis using False by simp
    qed
  qed
  have fl: "vecs (set_block p None s2) = (vecs s)(this := v')"
    "length (heap (set_block p None s2)) = length (heap s)"
    "raws (set_block p None s2) = raws s"
    "throw_budget (set_block p None s2) = throw_budget s"
    "alloc_budget (set_block p None s2) = alloc_budget s"
    "copy_calls (set_block p None s2) = copy_calls s"
    "move_calls (set_block p None s2) = move_calls s"
    "slot_bytes (set_block p None s2) = slot_bytes s"
    by (simp_all add: s2_def s1_def)
  from run bl fl show ?thesis by blast
qed

section \<open>Reallocating insertion\<close>

lemma EmplaceReallocate_alt:
  "EmplaceReallocate T this index a s =
     (let v = vecs s this; d = vec_data v
      in bind (RawMemory_ctor (if vec_size v = 0 then 1 else (vec_size v * 2) mod 2 ^ 64))
           (\<lambda>new_data.
              bind (on_throw
                      (bind (RawMemory_plus new_data index) (\<lambda>(p, i).
                         bind (construct_from T (raw_buffer d) a p i) (\<lambda>_.
                           on_throw
                             (bind (transfer T (raw_buffer d) 0 index (raw_buffer new_data) 0)
                                (\<lambda>_. transfer T (raw_buffer d) index (vec_size v - index)
                                        (raw_buffer new_data) (index + 1)))
                             (destroy_n (raw_buffer new_data) index 1))))
                      (RawMemory_dtor new_data))
                (\<lambda>_. bind (destroy_n (raw_buffer d) 0 (vec_size v))
                   (\<lambda>_. let (d1, nd1) = RawMemory_Swap d new_data
                         in bind (set_vec this
                                    (v\<lparr>vec_data := d1, vec_size := Suc (vec_size v)\<rparr>))
                              (\<lambda>_. RawMemory_dtor nd1)))) s)"
  by (cases "nothrow_move_constructible T \<or> \<not> copy_constructible T")
     (simp_all add: EmplaceReallocate_def transfer_def)

lemma reallocatedD:
  assumes "reallocated s this m ys s'" and "length ys \<le> m" and "m \<noteq> 0"
  shows "contains s' this ys" and "Capacity s' this = m"
    and "raw_buffer (vec_data (vecs s' this)) = Suc (length (heap s))"
    and "q \<noteq> this \<Longrightarrow> vecs s' q = vecs s q"
  using assms by (auto simp: reallocated_def contains_def Let_def Capacity_def)

section \<open>The core of a reallocation\<close>

lemma block_at_set_block_neq:
  "p \<noteq> 0 \<Longrightarrow> q \<noteq> p \<Longrightarrow> block_at (set_block p c s) q = block_at s q"
  by (cases "q = 0") (auto simp: block_at_def set_block_def nth_list_update)

lemma bind_transfer_empty: "bind m (\<lambda>_. transfer T a b 0 c d) s = m s"
  by (cases "m s") (auto simp: bind_def split: sum.splits)

lemma length_left_behind [simp]: "length (left_behind T zs) = length zs"
  by (simp add: left_behind_def)

text \<open>
  The elements \<open>xs\<close> of the vector are transferred into the new block \<open>np\<close>, the first
  \<open>i\<close> to its front and the others behind a gap \<open>G\<close>, which holds what was constructed
  there before.
\<close>

lemma relocate_core:
  fixes s :: "'a machine" and G :: "'a option list" and this :: nat
  defines "p \<equiv> raw_buffer (vec_data (vecs s this))"
  assumes c: "contains s this xs" and i: "i \<le> length xs"
    and np: "np = Suc (length (heap s))"
    and b2: "\<And>q. block_at s2 q =
        (if q = np then Some (replicate i None @ G @ replicate (length xs - i) None @ R2)
         else block_at s q)"
    and am: "affordable (move_cost T (length xs)) (throw_budget s2)"
  shows "\<exists>s4. bind (transfer T p 0 i np 0)
                (\<lambda>_. transfer T p i (length xs - i) np (i + length G)) s2 = (Inr (), s4) \<and>
      (p = 0 \<and> length xs = 0 \<or>
       (\<exists>zs R. block_at s4 p = Some (map Some zs @ R) \<and> length zs = length xs)) \<and>
      (\<forall>q. q \<noteq> p \<longrightarrow> block_at s4 q =
         (if q = np then Some (map Some (take i xs) @ G @ map Some (drop i xs) @ R2)
          else block_at s q)) \<and>
      frame s2 s4 \<and>
      throw_budget s4 = spend (move_cost T (length xs)) (throw_budget s2) \<and>
      copy_calls s4 = copy_calls s2 + (if by_move T then 0 else length xs) \<and>
      move_calls s4 = move_calls s2 + (if by_move T then length xs else 0)"
proof (cases "raw_capacity (vec_data (vecs s this)) = 0")
  case True
  note cD = containsD [OF c]
  from True cD have p0: "p = 0" and x0: "xs = []" by (simp_all add: p_def)
  with i have i0: "i = 0" by simp
  show ?thesis
    using p0 x0 i0 b2 by (simp add: bind_def move_cost_def)
next
  case False
  let ?A = "take i xs" and ?B = "drop i xs"
  let ?R = "replicate (raw_capacity (vec_data (vecs s this)) - length xs) (None :: 'a option)"
  note cD = containsD [OF c]
  have bold: "block_at s p = Some (map Some xs @ ?R)"
    using cD(4) [OF False] by (simp add: p_def)
  then have prange: "p \<le> length (heap s)" "p \<noteq> np" "p \<noteq> 0"
    using block_at_Some_range [OF bold] np by simp_all
  have cost: "move_cost T (length ?A) + move_cost T (length ?B) = move_cost T (length xs)"
    using i by (simp add: move_cost_def)
  have am1: "affordable (move_cost T (length ?A)) (throw_budget s2)"
    and am2: "affordable (move_cost T (length ?B))
                (spend (move_cost T (length ?A)) (throw_budget s2))"
    using am affordable_add [of "move_cost T (length ?A)" "move_cost T (length ?B)"
        "throw_budget s2"] cost by simp_all
  have lenA: "length ?A = i" using i by simp
  have xsAB: "map Some xs = map Some ?A @ map Some ?B"
    by (simp add: map_append [symmetric] del: map_append)
  have src2: "block_at s2 p = Some ([] @ map Some ?A @ (map Some ?B @ ?R))"
    using b2 [of p] prange bold xsAB by simp
  have dst2: "block_at s2 np
      = Some ([] @ replicate (length ?A) None @ (G @ replicate (length xs - i) None @ R2))"
    using b2 [of np] lenA by simp
  define s3 where "s3 = (set_block p (Some ([] @ map Some (left_behind T ?A) @ (map Some ?B @ ?R)))
                    (set_block np (Some ([] @ map Some ?A @
                        (G @ replicate (length xs - i) None @ R2))) s2))
                    \<lparr>throw_budget := spend (move_cost T (length ?A)) (throw_budget s2),
                      copy_calls := copy_calls s2 + (if by_move T then 0 else length ?A),
                      move_calls := move_calls s2 + (if by_move T then length ?A else 0)\<rparr>"
  have t1: "transfer T p 0 i np 0 s2 = (Inr (), s3)"
    using transfer_vec [OF src2 dst2 prange(2) am1] lenA
    by (simp add: s3_def)
  have src3: "block_at s3 p = Some (map Some (left_behind T ?A) @ map Some ?B @ ?R)"
    using src2 dst2 prange
    by (simp add: s3_def block_at_set_block_same block_at_set_block_other)
  have dst3: "block_at s3 np = Some ((map Some ?A @ G) @ replicate (length ?B) None @ R2)"
    using src2 dst2 prange
    by (simp add: s3_def block_at_set_block_same block_at_set_block_other)
  have oth3: "block_at s3 q = block_at s2 q" if "q \<noteq> p" "q \<noteq> np" for q
    using that prange np
    by (simp add: s3_def block_at_set_block_neq)
  have tb3: "throw_budget s3 = spend (move_cost T (length ?A)) (throw_budget s2)"
    by (simp add: s3_def)
  define s4 where "s4 = (set_block p
                      (Some (map Some (left_behind T ?A) @ map Some (left_behind T ?B) @ ?R))
                    (set_block np (Some ((map Some ?A @ G) @ map Some ?B @ R2)) s3))
                    \<lparr>throw_budget := spend (move_cost T (length ?B)) (throw_budget s3),
                      copy_calls := copy_calls s3 + (if by_move T then 0 else length ?B),
                      move_calls := move_calls s3 + (if by_move T then length ?B else 0)\<rparr>"
  have t2: "transfer T p i (length xs - i) np (i + length G) s3 = (Inr (), s4)"
    using transfer_vec [OF src3 dst3 prange(2), of T] am2 lenA i
    by (simp add: s4_def tb3)
  have bn4: "block_at s4 np = Some (map Some ?A @ G @ map Some ?B @ R2)"
    using src3 dst3 prange
    by (simp add: s4_def block_at_set_block_same block_at_set_block_other)
  have bp4: "block_at s4 p
      = Some (map Some (left_behind T ?A @ left_behind T ?B) @ ?R)"
    using src3 dst3 prange
    by (simp add: s4_def block_at_set_block_same block_at_set_block_other)
  have bo4: "block_at s4 q = block_at s q" if "q \<noteq> p" "q \<noteq> np" for q
  proof -
    have "block_at s4 q = block_at s3 q"
      using that prange np
      by (simp add: s4_def block_at_set_block_neq)
    with that oth3 [OF that] show ?thesis by (simp add: b2)
  qed
  have bl4: "\<forall>q. q \<noteq> p \<longrightarrow> block_at s4 q =
       (if q = np then Some (map Some ?A @ G @ map Some ?B @ R2) else block_at s q)"
    using bn4 bo4 by simp
  have old4: "\<exists>zs R. block_at s4 p = Some (map Some zs @ R) \<and> length zs = length xs"
    using bp4 i by (intro exI [of _ "left_behind T ?A @ left_behind T ?B"] exI [of _ ?R]) simp
  have fr: "frame s2 s4"
    using transfer_frame [OF t1] transfer_frame [OF t2] by (rule frame_trans)
  have f4: "throw_budget s4 = spend (move_cost T (length xs)) (throw_budget s2)"
    "copy_calls s4 = copy_calls s2 + (if by_move T then 0 else length xs)"
    "move_calls s4 = move_calls s2 + (if by_move T then length xs else 0)"
    using cost i by (simp_all add: s4_def s3_def)
  show ?thesis
    using t1 t2 old4 bl4 fr f4 by (intro exI [of _ s4]) (simp add: bind_def)
qed

section \<open>A new block\<close>

lemma new_block:
  assumes "m \<noteq> 0" and "fits s m" and "affordable 1 (alloc_budget s)"
  shows "\<exists>s1. RawMemory_ctor m s
            = (Inr \<lparr>raw_buffer = Suc (length (heap s)), raw_capacity = m\<rparr>, s1) \<and>
          (\<forall>q. block_at s1 q =
             (if q = Suc (length (heap s)) then Some (replicate m None) else block_at s q)) \<and>
          vecs s1 = vecs s \<and> raws s1 = raws s \<and>
          length (heap s1) = Suc (length (heap s)) \<and>
          alloc_budget s1 = spend 1 (alloc_budget s) \<and> throw_budget s1 = throw_budget s \<and>
          copy_calls s1 = copy_calls s \<and> move_calls s1 = move_calls s \<and>
          slot_bytes s1 = slot_bytes s"
  using RawMemory_ctor_exec [OF assms]
  by (simp add: block_at_append)

lemma construct_in_new_block:
  assumes b1: "\<And>q. block_at s1 q = (if q = np then Some (replicate m None) else block_at s q)"
    and i: "i < m" and o: "supplies s1 buf a x"
    and aff: "affordable (arg_cost T a) (throw_budget s1)"
  shows "\<exists>s2. construct_from T buf a np i s1 = (Inr (), s2) \<and>
          (\<forall>q. block_at s2 q =
             (if q = np then Some (replicate i None @ [Some x] @ replicate (m - Suc i) None)
              else block_at s q)) \<and>
          frame s1 s2 \<and> throw_budget s2 = spend (arg_cost T a) (throw_budget s1) \<and>
          copy_calls s2 = copy_calls s1 + arg_copies a \<and>
          move_calls s2 = move_calls s1 + arg_moves a"
proof -
  have bnp: "block_at s1 np = Some (replicate m None)" using b1 [of np] by simp
  have rep: "(replicate m None)[i := Some x]
             = replicate i None @ [Some x] @ replicate (m - Suc i) (None :: 'a option)"
    using spare_slot_update [of i m "replicate i None" None "Some x"] i
    by (simp add: replicate_add [symmetric])
  define s2 where "s2 = (set_block np
        (Some (replicate i None @ [Some x] @ replicate (m - Suc i) None)) s1)
        \<lparr>throw_budget := spend (arg_cost T a) (throw_budget s1),
          copy_calls := copy_calls s1 + arg_copies a,
          move_calls := move_calls s1 + arg_moves a\<rparr>"
  have st: "construct_from T buf a np i s1 = (Inr (), s2)"
    using construct_from_exec [OF o bnp _ aff, of i] i
    by (simp add: rep s2_def del: replicate_Suc)
  have np0: "np \<noteq> 0" using block_at_Some_range [OF bnp] by simp
  have bl: "block_at s2 q =
             (if q = np then Some (replicate i None @ [Some x] @ replicate (m - Suc i) None)
              else block_at s q)" for q
    using bnp np0 b1 [of q]
    by (simp add: s2_def block_at_set_block_same block_at_set_block_neq)
  have fr: "frame s1 s2"
    using frame_set_block [OF bnp, of "replicate i None @ [Some x] @ replicate (m - Suc i) None"] i
    by (simp add: s2_def)
  from st bl fr show ?thesis
    by (intro exI [of _ s2]) (simp add: s2_def)
qed

lemma frameD:
  assumes "frame s s'"
  shows "vecs s' = vecs s" "raws s' = raws s" "length (heap s') = length (heap s)"
    "alloc_budget s' = alloc_budget s" "slot_bytes s' = slot_bytes s"
  using assms frame_length_heap [OF assms] by (simp_all add: frame_def)

lemma contains_buffer_old:
  assumes "contains s this xs"
  shows "raw_buffer (vec_data (vecs s this)) \<noteq> Suc (length (heap s))"
proof (cases "raw_capacity (vec_data (vecs s this)) = 0")
  case True
  with containsD(3) [OF assms] show ?thesis by simp
next
  case False
  from block_at_Some_range [OF containsD(4) [OF assms False]] show ?thesis by simp
qed

section \<open>EmplaceBack with reallocation\<close>

lemma EmplaceBack_alt:
  "EmplaceBack T this a s =
     (let v = vecs s this; d = vec_data v
      in bind
           (if vec_size v = Capacity s this then
              bind (RawMemory_ctor
                      (if vec_size v = 0 then 1 else (vec_size v * 2) mod 2 ^ 64))
                (\<lambda>new_data.
                   bind (on_throw
                           (bind (RawMemory_plus new_data (vec_size v)) (\<lambda>(p, i).
                              bind (construct_from T (raw_buffer d) a p i) (\<lambda>_.
                                transfer T (raw_buffer d) 0 (vec_size v)
                                  (raw_buffer new_data) 0)))
                           (RawMemory_dtor new_data))
                     (\<lambda>_. bind (destroy_n (raw_buffer d) 0 (vec_size v))
                        (\<lambda>_. let (d1, nd1) = RawMemory_Swap d new_data
                              in bind (set_vec this (v\<lparr>vec_data := d1\<rparr>))
                                   (\<lambda>_. RawMemory_dtor nd1))))
            else bind (RawMemory_plus d (vec_size v))
                   (\<lambda>(p, i). construct_from T (raw_buffer d) a p i))
           (\<lambda>_ s1. let v1 = vecs s1 this
                    in bind (set_vec this (v1\<lparr>vec_size := Suc (vec_size v1)\<rparr>))
                         (\<lambda>_. RawMemory_index (vec_data v1) (Suc (vec_size v1) - 1)) s1) s)"
  by (simp only: EmplaceBack_def transfer_def)

lemma EmplaceBack_grow_exec:
  assumes c: "contains s this xs"
    and full: "Capacity s this = length xs"
    and pr: "provides xs a x"
    and ft: "fits s (if length xs = 0 then 1 else length xs * 2)"
    and aa: "affordable 1 (alloc_budget s)"
    and at: "affordable (arg_cost T a + move_cost T (length xs)) (throw_budget s)"
  shows "\<exists>s'. EmplaceBack T this a s = (Inr (Suc (length (heap s)), length xs), s') \<and>
           reallocated s this (if length xs = 0 then 1 else length xs * 2) (xs @ [x]) s' \<and>
           throw_budget s' = spend (arg_cost T a + move_cost T (length xs)) (throw_budget s) \<and>
           copy_calls s' = copy_calls s + arg_copies a + (if by_move T then 0 else length xs) \<and>
           move_calls s' = move_calls s + arg_moves a + (if by_move T then length xs else 0)"
proof -
  let ?v = "vecs s this"
  let ?d = "vec_data ?v"
  let ?p = "raw_buffer ?d"
  define m where "m = (if length xs = 0 then 1 else length xs * 2)"
  let ?np = "Suc (length (heap s))"
  let ?nd = "\<lparr>raw_buffer = ?np, raw_capacity = m\<rparr>"
  let ?ys = "xs @ [x]"
  let ?v' = "?v\<lparr>vec_data := ?d\<lparr>raw_buffer := ?np, raw_capacity := m\<rparr>\<rparr>"
  note cD = containsD [OF c]
  have sz: "vec_size ?v = length xs" by (rule cD(1))
  have m0: "m \<noteq> 0" by (simp add: m_def)
  have xm: "length xs < m" by (cases xs; simp add: m_def)
  have a1: "affordable (arg_cost T a) (throw_budget s)"
    and am: "affordable (move_cost T (length xs)) (spend (arg_cost T a) (throw_budget s))"
    using at affordable_add [of "arg_cost T a" "move_cost T (length xs)" "throw_budget s"]
    by simp_all
  have fm: "fits s m" using ft by (simp add: m_def)
  have dbl: "(if vec_size ?v = 0 then 1 else (vec_size ?v * 2) mod 2 ^ 64) = m"
    using fits_bound [OF fm] by (auto simp: sz m_def)
  have c0: "(vec_size ?v = Capacity s this) = True" using sz full by simp
  from new_block [OF m0 fm aa] obtain s1 where
    st1': "RawMemory_ctor m s = (Inr ?nd, s1)"
    and b1: "\<And>q. block_at s1 q = (if q = ?np then Some (replicate m None) else block_at s q)"
    and f1: "vecs s1 = vecs s" "raws s1 = raws s" "length (heap s1) = Suc (length (heap s))"
      "alloc_budget s1 = spend 1 (alloc_budget s)" "throw_budget s1 = throw_budget s"
      "copy_calls s1 = copy_calls s" "move_calls s1 = move_calls s"
      "slot_bytes s1 = slot_bytes s"
    by blast
  have st1: "RawMemory_ctor (if vec_size ?v = 0 then 1 else (vec_size ?v * 2) mod 2 ^ 64) s
      = (Inr ?nd, s1)"
    unfolding dbl by (rule st1')
  have st2: "RawMemory_plus ?nd (vec_size ?v) s1 = (Inr (?np, length xs), s1)"
    using xm sz by (simp add: RawMemory_plus_def assert_that_def bind_def ret_def)
  have pnp0: "?p \<noteq> ?np" by (rule contains_buffer_old [OF c])
  have o: "supplies s1 ?p a x"
    using provides_supplies [OF c pr] supplies_cong [of s1 ?p s a x] b1 [of ?p] pnp0 by simp
  from construct_in_new_block [OF b1 xm o, of T] a1 f1 obtain s2 where
    st3: "construct_from T ?p a ?np (length xs) s1 = (Inr (), s2)"
    and b2: "\<And>q. block_at s2 q =
             (if q = ?np then Some (replicate (length xs) None @ [Some x]
                                     @ replicate (m - Suc (length xs)) None)
              else block_at s q)"
    and f2: "frame s1 s2" "throw_budget s2 = spend (arg_cost T a) (throw_budget s1)"
      "copy_calls s2 = copy_calls s1 + arg_copies a"
      "move_calls s2 = move_calls s1 + arg_moves a"
    by auto
  have b2': "block_at s2 q =
        (if q = ?np then Some (replicate (length xs) None @ [Some x]
              @ replicate (length xs - length xs) None @ replicate (m - Suc (length xs)) None)
         else block_at s q)" for q
    using b2 [of q] by simp
  have am2: "affordable (move_cost T (length xs)) (throw_budget s2)"
    using am f2 f1 by simp
  from relocate_core [OF c le_refl refl b2' am2] obtain s4 where
    tr': "bind (transfer T ?p 0 (length xs) ?np 0)
            (\<lambda>_. transfer T ?p (length xs) (length xs - length xs) ?np
                    (length xs + length [Some x])) s2 = (Inr (), s4)"
    and old4: "?p = 0 \<and> length xs = 0 \<or>
       (\<exists>zs R. block_at s4 ?p = Some (map Some zs @ R) \<and> length zs = length xs)"
    and bl4: "\<forall>q. q \<noteq> ?p \<longrightarrow> block_at s4 q =
         (if q = ?np then Some (map Some (take (length xs) xs) @ [Some x]
               @ map Some (drop (length xs) xs) @ replicate (m - Suc (length xs)) None)
          else block_at s q)"
    and f4: "frame s2 s4"
      "throw_budget s4 = spend (move_cost T (length xs)) (throw_budget s2)"
      "copy_calls s4 = copy_calls s2 + (if by_move T then 0 else length xs)"
      "move_calls s4 = move_calls s2 + (if by_move T then length xs else 0)"
    by blast
  have tr: "transfer T ?p 0 (vec_size ?v) ?np 0 s2 = (Inr (), s4)"
    using tr' by (simp add: bind_transfer_empty sz)
  from retire_old [of ?p "vec_size ?v" s4 this ?v' "raw_capacity ?d"] old4 sz
  obtain s5 where
    tl: "bind (destroy_n ?p 0 (vec_size ?v))
          (\<lambda>_. bind (set_vec this ?v')
             (\<lambda>_. RawMemory_dtor \<lparr>raw_buffer = ?p, raw_capacity = raw_capacity ?d\<rparr>)) s4
         = (Inr (), s5)"
    and v5: "vecs s5 = (vecs s4)(this := ?v')"
    and b5: "block_at s5 = (block_at s4)(?p := None)"
    and f5: "length (heap s5) = length (heap s4)" "raws s5 = raws s4"
      "throw_budget s5 = throw_budget s4" "alloc_budget s5 = alloc_budget s4"
      "copy_calls s5 = copy_calls s4" "move_calls s5 = move_calls s4"
      "slot_bytes s5 = slot_bytes s4"
    by auto
  define s6 where "s6 = s5\<lparr>vecs := (vecs s5)(this :=
      (vecs s5 this)\<lparr>vec_size := Suc (vec_size (vecs s5 this))\<rparr>)\<rparr>"
  have st5: "set_vec this ((vecs s5 this)\<lparr>vec_size := Suc (vec_size (vecs s5 this))\<rparr>) s5
             = (Inr (), s6)"
    by (simp add: set_vec_def s6_def)
  have st6: "RawMemory_index (vec_data (vecs s5 this)) (Suc (vec_size (vecs s5 this)) - 1) s6
             = (Inr (?np, length xs), s6)"
    using xm sz by (simp add: v5 RawMemory_index_def assert_that_def bind_def ret_def)
  have run: "EmplaceBack T this a s = (Inr (?np, length xs), s6)"
    by (simp only: EmplaceBack_alt Let_def c0 if_True
        bind_def [of "bind (RawMemory_ctor _) _"] bind_def [of "RawMemory_ctor _"] st1
        prod.case sum.case RawMemory.simps RawMemory_Swap_def
        bind_def [of "on_throw _ _"] on_throw_def [of "bind (RawMemory_plus _ _) _"]
        bind_def [of "RawMemory_plus _ _"] st2 bind_def [of "construct_from _ _ _ _ _"] st3 tr tl
        bind_def [of "set_vec _ (_\<lparr>vec_size := _\<rparr>)"] st5 st6)
  note fs = frameD [OF f2(1)] frameD [OF f4(1)]
  have r1: "vecs s6 = (vecs s)(this :=
        \<lparr>vec_data = \<lparr>raw_buffer = ?np, raw_capacity = m\<rparr>, vec_size = length ?ys\<rparr>)"
    by (simp add: s6_def v5 fs f1 sz RawMemory_upd_eq fun_eq_iff)
  have pnp: "?p \<noteq> ?np" by (rule contains_buffer_old [OF c])
  have r2: "block_at s6 = (block_at s)
        (?p := None, ?np := Some (map Some ?ys @ replicate (m - length ?ys) None))"
  proof
    fix q
    show "block_at s6 q = ((block_at s)
        (?p := None, ?np := Some (map Some ?ys @ replicate (m - length ?ys) None))) q"
    proof (cases "q = ?p")
      case True
      with pnp show ?thesis by (simp add: s6_def b5)
    next
      case False
      with bl4 have "block_at s4 q =
         (if q = ?np then Some (map Some (take (length xs) xs) @ [Some x]
               @ map Some (drop (length xs) xs) @ replicate (m - Suc (length xs)) None)
          else block_at s q)" by blast
      with False show ?thesis by (simp add: s6_def b5)
    qed
  qed
  have "reallocated s this m ?ys s6"
    unfolding reallocated_def using r1 r2 f5 fs f1 by (simp add: s6_def)
  moreover have "throw_budget s6
      = spend (arg_cost T a + move_cost T (length xs)) (throw_budget s)"
    "copy_calls s6 = copy_calls s + arg_copies a + (if by_move T then 0 else length xs)"
    "move_calls s6 = move_calls s + arg_moves a + (if by_move T then length xs else 0)"
    using f5 f4 f2 f1 by (simp_all add: s6_def spend_spend)
  ultimately show ?thesis
    using run by (auto simp: m_def)
qed

section \<open>Reallocating insertion\<close>

lemma EmplaceReallocate_exec:
  assumes c: "contains s this xs"
    and full: "Capacity s this = length xs"
    and i: "i \<le> length xs"
    and pr: "provides xs a x"
    and ft: "fits s (if length xs = 0 then 1 else length xs * 2)"
    and aa: "affordable 1 (alloc_budget s)"
    and at: "affordable (arg_cost T a + move_cost T (length xs)) (throw_budget s)"
  shows "\<exists>s'. EmplaceReallocate T this i a s = (Inr (), s') \<and>
           reallocated s this (if length xs = 0 then 1 else length xs * 2)
             (take i xs @ x # drop i xs) s' \<and>
           throw_budget s' = spend (arg_cost T a + move_cost T (length xs)) (throw_budget s) \<and>
           copy_calls s' = copy_calls s + arg_copies a + (if by_move T then 0 else length xs) \<and>
           move_calls s' = move_calls s + arg_moves a + (if by_move T then length xs else 0)"
proof -
  let ?v = "vecs s this"
  let ?d = "vec_data ?v"
  let ?p = "raw_buffer ?d"
  define m where "m = (if length xs = 0 then 1 else length xs * 2)"
  let ?np = "Suc (length (heap s))"
  let ?nd = "\<lparr>raw_buffer = ?np, raw_capacity = m\<rparr>"
  let ?ys = "take i xs @ x # drop i xs"
  let ?v' = "?v\<lparr>vec_data := ?d\<lparr>raw_buffer := ?np, raw_capacity := m\<rparr>,
                 vec_size := Suc (vec_size ?v)\<rparr>"
  note cD = containsD [OF c]
  have sz: "vec_size ?v = length xs" by (rule cD(1))
  have m0: "m \<noteq> 0" by (simp add: m_def)
  have xm: "length xs < m" by (cases xs; simp add: m_def)
  with i have im: "i < m" by simp
  have a1: "affordable (arg_cost T a) (throw_budget s)"
    and am: "affordable (move_cost T (length xs)) (spend (arg_cost T a) (throw_budget s))"
    using at affordable_add [of "arg_cost T a" "move_cost T (length xs)" "throw_budget s"]
    by simp_all
  have fm: "fits s m" using ft by (simp add: m_def)
  have dbl: "(if vec_size ?v = 0 then 1 else (vec_size ?v * 2) mod 2 ^ 64) = m"
    using fits_bound [OF fm] by (auto simp: sz m_def)
  from new_block [OF m0 fm aa] obtain s1 where
    st1': "RawMemory_ctor m s = (Inr ?nd, s1)"
    and b1: "\<And>q. block_at s1 q = (if q = ?np then Some (replicate m None) else block_at s q)"
    and f1: "vecs s1 = vecs s" "raws s1 = raws s" "length (heap s1) = Suc (length (heap s))"
      "alloc_budget s1 = spend 1 (alloc_budget s)" "throw_budget s1 = throw_budget s"
      "copy_calls s1 = copy_calls s" "move_calls s1 = move_calls s"
      "slot_bytes s1 = slot_bytes s"
    by blast
  have st1: "RawMemory_ctor (if vec_size ?v = 0 then 1 else (vec_size ?v * 2) mod 2 ^ 64) s
      = (Inr ?nd, s1)"
    unfolding dbl by (rule st1')
  have st2: "RawMemory_plus ?nd i s1 = (Inr (?np, i), s1)"
    using im by (simp add: RawMemory_plus_def assert_that_def bind_def ret_def)
  have pnp0: "?p \<noteq> ?np" by (rule contains_buffer_old [OF c])
  have o: "supplies s1 ?p a x"
    using provides_supplies [OF c pr] supplies_cong [of s1 ?p s a x] b1 [of ?p] pnp0 by simp
  from construct_in_new_block [OF b1 im o, of T] a1 f1 obtain s2 where
    st3: "construct_from T ?p a ?np i s1 = (Inr (), s2)"
    and b2: "\<And>q. block_at s2 q =
             (if q = ?np then Some (replicate i None @ [Some x] @ replicate (m - Suc i) None)
              else block_at s q)"
    and f2: "frame s1 s2" "throw_budget s2 = spend (arg_cost T a) (throw_budget s1)"
      "copy_calls s2 = copy_calls s1 + arg_copies a"
      "move_calls s2 = move_calls s1 + arg_moves a"
    by auto
  have split: "replicate (m - Suc i) (None :: 'a option)
        = replicate (length xs - i) None @ replicate (m - Suc (length xs)) None"
    using i xm by (simp add: replicate_add [symmetric])
  have b2': "block_at s2 q =
        (if q = ?np then Some (replicate i None @ [Some x]
              @ replicate (length xs - i) None @ replicate (m - Suc (length xs)) None)
         else block_at s q)" for q
    using b2 [of q] split by simp
  have am2: "affordable (move_cost T (length xs)) (throw_budget s2)"
    using am f2 f1 by simp
  from relocate_core [OF c i refl b2' am2] obtain s4 where
    tr': "bind (transfer T ?p 0 i ?np 0)
            (\<lambda>_. transfer T ?p i (length xs - i) ?np (i + length [Some x])) s2 = (Inr (), s4)"
    and old4: "?p = 0 \<and> length xs = 0 \<or>
       (\<exists>zs R. block_at s4 ?p = Some (map Some zs @ R) \<and> length zs = length xs)"
    and bl4: "\<forall>q. q \<noteq> ?p \<longrightarrow> block_at s4 q =
         (if q = ?np then Some (map Some (take i xs) @ [Some x]
               @ map Some (drop i xs) @ replicate (m - Suc (length xs)) None)
          else block_at s q)"
    and f4: "frame s2 s4"
      "throw_budget s4 = spend (move_cost T (length xs)) (throw_budget s2)"
      "copy_calls s4 = copy_calls s2 + (if by_move T then 0 else length xs)"
      "move_calls s4 = move_calls s2 + (if by_move T then length xs else 0)"
    by blast
  have tr: "bind (transfer T ?p 0 i ?np 0)
            (\<lambda>_. transfer T ?p i (vec_size ?v - i) ?np (i + 1)) s2 = (Inr (), s4)"
    using tr' by (simp add: sz)
  from retire_old [of ?p "vec_size ?v" s4 this ?v' "raw_capacity ?d"] old4 sz
  obtain s5 where
    tl: "bind (destroy_n ?p 0 (vec_size ?v))
          (\<lambda>_. bind (set_vec this ?v')
             (\<lambda>_. RawMemory_dtor \<lparr>raw_buffer = ?p, raw_capacity = raw_capacity ?d\<rparr>)) s4
         = (Inr (), s5)"
    and v5: "vecs s5 = (vecs s4)(this := ?v')"
    and b5: "block_at s5 = (block_at s4)(?p := None)"
    and f5: "length (heap s5) = length (heap s4)" "raws s5 = raws s4"
      "throw_budget s5 = throw_budget s4" "alloc_budget s5 = alloc_budget s4"
      "copy_calls s5 = copy_calls s4" "move_calls s5 = move_calls s4"
      "slot_bytes s5 = slot_bytes s4"
    by auto
  have run: "EmplaceReallocate T this i a s = (Inr (), s5)"
    by (simp only: EmplaceReallocate_alt Let_def bind_def [of "RawMemory_ctor _"] st1
        prod.case sum.case RawMemory.simps RawMemory_Swap_def
        bind_def [of "on_throw _ _"] on_throw_def [of "bind (RawMemory_plus _ _) _"]
        bind_def [of "RawMemory_plus _ _"] st2 bind_def [of "construct_from _ _ _ _ _"] st3
        on_throw_def [of "bind (transfer _ _ _ _ _ _) _"] tr tl)
  note fs = frameD [OF f2(1)] frameD [OF f4(1)]
  have ly: "length ?ys = Suc (length xs)" using i by simp
  have r1: "vecs s5 = (vecs s)(this :=
        \<lparr>vec_data = \<lparr>raw_buffer = ?np, raw_capacity = m\<rparr>, vec_size = length ?ys\<rparr>)"
    unfolding ly by (simp add: v5 fs f1 sz RawMemory_upd_eq Vector_upd_eq)
  have pnp: "?p \<noteq> ?np" by (rule contains_buffer_old [OF c])
  have r2: "block_at s5 = (block_at s)
        (?p := None, ?np := Some (map Some ?ys @ replicate (m - length ?ys) None))"
  proof
    fix q
    show "block_at s5 q = ((block_at s)
        (?p := None, ?np := Some (map Some ?ys @ replicate (m - length ?ys) None))) q"
    proof (cases "q = ?p")
      case True
      with pnp show ?thesis by (simp add: b5)
    next
      case False
      with bl4 have "block_at s4 q =
         (if q = ?np then Some (map Some (take i xs) @ [Some x]
               @ map Some (drop i xs) @ replicate (m - Suc (length xs)) None)
          else block_at s q)" by blast
      with False i show ?thesis by (simp add: b5)
    qed
  qed
  have "reallocated s this m ?ys s5"
    unfolding reallocated_def using r1 r2 f5 fs f1 by simp
  moreover have "throw_budget s5
      = spend (arg_cost T a + move_cost T (length xs)) (throw_budget s)"
    "copy_calls s5 = copy_calls s + arg_copies a + (if by_move T then 0 else length xs)"
    "move_calls s5 = move_calls s + arg_moves a + (if by_move T then length xs else 0)"
    using f5 f4 f2 f1 by simp_all
  ultimately show ?thesis
    using run by (auto simp: m_def)
qed

section \<open>Reserve\<close>




section \<open>Copy construction\<close>

lemma set_block_new:
  "set_block (Suc (length (heap s))) b (s\<lparr>heap := heap s @ [c]\<rparr>) = s\<lparr>heap := heap s @ [b]\<rparr>"
  by (simp add: set_block_def)

lemma Vector_copy_empty:
  assumes c: "contains s other []"
  shows "Vector_copy (vecs s other) s
         = (Inr \<lparr>vec_data = \<lparr>raw_buffer = 0, raw_capacity = 0\<rparr>, vec_size = 0\<rparr>, s)"
  using containsD(1) [OF c]
  by (simp add: Vector_copy_def RawMemory_ctor_zero bind_def on_throw_def ret_def)

lemma Vector_copy_exec:
  assumes c: "contains s other xs" and ne: "xs \<noteq> []"
    and ft: "fits s (length xs)"
    and aa: "affordable 1 (alloc_budget s)"
    and at: "affordable (length xs) (throw_budget s)"
  shows "Vector_copy (vecs s other) s
         = (Inr \<lparr>vec_data = \<lparr>raw_buffer = Suc (length (heap s)), raw_capacity = length xs\<rparr>,
                 vec_size = length xs\<rparr>,
            s\<lparr>heap := heap s @ [Some (map Some xs)],
              alloc_budget := spend 1 (alloc_budget s),
              throw_budget := spend (length xs) (throw_budget s),
              copy_calls := copy_calls s + length xs\<rparr>)"
proof -
  let ?v = "vecs s other"
  let ?p = "raw_buffer (vec_data ?v)"
  let ?np = "Suc (length (heap s))"
  let ?nd = "\<lparr>raw_buffer = ?np, raw_capacity = length xs\<rparr>"
  let ?R = "replicate (raw_capacity (vec_data ?v) - length xs) (None :: 'a option)"
  note cD = containsD [OF c]
  have sz: "vec_size ?v = length xs" by (rule cD(1))
  from ne cD(2) have cap: "raw_capacity (vec_data ?v) \<noteq> 0" by (cases xs) auto
  have n0: "length xs \<noteq> 0" using ne by simp
  define s1 where "s1 = s\<lparr>heap := heap s @ [Some (replicate (length xs) None)],
        alloc_budget := spend 1 (alloc_budget s)\<rparr>"
  have st1: "RawMemory_ctor (length xs) s = (Inr ?nd, s1)"
    unfolding s1_def by (rule RawMemory_ctor_exec [OF n0 ft aa])
  have pnp: "?p \<noteq> ?np" by (rule contains_buffer_old [OF c])
  have bo: "block_at s1 ?p = Some ([] @ map Some xs @ ?R)"
    using cD(4) [OF cap] pnp by (simp add: s1_def block_at_append)
  have bn: "block_at s1 ?np = Some ([] @ replicate (length xs) None @ [])"
    by (simp add: s1_def block_at_append)
  have at1: "affordable (length xs) (throw_budget s1)" using at by (simp add: s1_def)
  define s2 where "s2 = s\<lparr>heap := heap s @ [Some (map Some xs)],
        alloc_budget := spend 1 (alloc_budget s),
        throw_budget := spend (length xs) (throw_budget s),
        copy_calls := copy_calls s + length xs\<rparr>"
  have st2: "uninitialized_copy_n ?p 0 (length xs) ?np 0 s1 = (Inr (), s2)"
    using uninitialized_copy_n_vec [OF bo bn pnp at1]
    by (simp add: s1_def s2_def set_block_def)
  show ?thesis
    unfolding s2_def [symmetric]
    by (simp add: Vector_copy_def sz bind_def st1 on_throw_def st2 ret_def)
qed

section \<open>PopBack\<close>

lemma butlast_block:
  assumes "xs \<noteq> []" and "length xs \<le> c"
  shows "(map Some xs @ replicate (c - length xs) None)[length xs - 1 := None]
         = map Some (butlast xs) @ replicate (c - length (butlast xs)) None"
proof -
  from assms(1) obtain ys y where xs: "xs = ys @ [y]"
    by (metis append_butlast_last_id)
  have "c - length ys = Suc (c - Suc (length ys))" using assms(2) xs by simp
  then show ?thesis
    by (simp add: xs list_update_append)
qed

lemma PopBack_exec:
  assumes c: "contains s this xs" and ne: "xs \<noteq> []"
  shows "PopBack this s =
     (Inr (), (set_block (raw_buffer (vec_data (vecs s this)))
                 (Some (map Some (butlast xs) @
                    replicate (Capacity s this - length (butlast xs)) None)) s)
               \<lparr>vecs := (vecs s)(this := (vecs s this)\<lparr>vec_size := length xs - 1\<rparr>)\<rparr>)"
proof -
  let ?v = "vecs s this"
  let ?p = "raw_buffer (vec_data ?v)"
  let ?c = "raw_capacity (vec_data ?v)"
  let ?b = "map Some xs @ replicate (?c - length xs) None"
  note cD = containsD [OF c]
  have sz: "vec_size ?v = length xs" by (rule cD(1))
  from ne cD(2) have cap: "?c \<noteq> 0" by (cases xs) auto
  have blk: "block_at s ?p = Some ?b" by (rule cD(4) [OF cap])
  have i: "length xs - 1 < length ?b" using ne cD(2) by (cases xs) simp_all
  have live: "?b ! (length xs - 1) \<noteq> None"
    using ne by (cases xs rule: rev_cases) (simp_all add: nth_append)
  have st: "destroy_at ?p (length xs - Suc 0) s
      = (Inr (), set_block ?p (Some (map Some (butlast xs)
            @ replicate (?c - (length xs - Suc 0)) None)) s)"
    using destroy_at_exec [OF blk i live] butlast_block [OF ne cD(2)] by simp
  show ?thesis
    using ne
    by (simp add: PopBack_def Let_def IsEmpty_def sz assert_that_def bind_def ret_def
        st set_vec_def Capacity_def)
qed

section \<open>Resize\<close>

lemma Resize_shrink_exec:
  assumes c: "contains s this xs" and n: "n < length xs"
  shows "Resize T this n s =
     (Inr (), (set_block (raw_buffer (vec_data (vecs s this)))
                 (Some (map Some (take n xs) @ replicate (Capacity s this - n) None)) s)
               \<lparr>vecs := (vecs s)(this := (vecs s this)\<lparr>vec_size := n\<rparr>)\<rparr>)"
proof -
  let ?v = "vecs s this"
  let ?p = "raw_buffer (vec_data ?v)"
  let ?c = "raw_capacity (vec_data ?v)"
  let ?R = "replicate (?c - length xs) (None :: 'a option)"
  note cD = containsD [OF c]
  have sz: "vec_size ?v = length xs" by (rule cD(1))
  from n cD(2) have cap: "?c \<noteq> 0" by auto
  have xs: "map Some xs = map Some (take n xs) @ map Some (drop n xs)"
    by (simp add: map_append [symmetric] del: map_append)
  have blk: "block_at s ?p = Some (map Some (take n xs) @ map Some (drop n xs) @ ?R)"
    using cD(4) [OF cap] xs by simp
  have ln: "length (map Some (take n xs)) = n" "length (drop n xs) = length xs - n"
    using n by simp_all
  have rp: "replicate (length xs - n) None @ ?R = replicate (?c - n) (None :: 'a option)"
    using n cD(2) by (simp add: replicate_add [symmetric])
  have st: "destroy_n ?p n (length xs - n) s
      = (Inr (), set_block ?p (Some (map Some (take n xs) @ replicate (?c - n) None)) s)"
    using destroy_n_vec [OF blk] unfolding ln rp by simp
  show ?thesis
    using n by (simp add: Resize_def Let_def sz bind_def st set_vec_def Capacity_def)
qed

lemma Resize_same_exec:
  assumes c: "contains s this xs"
  shows "Resize T this (length xs) s = (Inr (), s)"
proof -
  have "(vecs s)(this := (vecs s this)\<lparr>vec_size := length xs\<rparr>) = vecs s"
    using containsD(1) [OF c] by (simp add: fun_eq_iff)
  then show ?thesis
    using containsD(1) [OF c] by (simp add: Resize_def Let_def bind_def ret_def set_vec_def)
qed



section \<open>Erase\<close>

lemma Erase_exec:
  assumes c: "contains s this xs" and i: "i < length xs"
    and at: "affordable (assign_cost T (length xs - Suc i)) (throw_budget s)"
  shows "\<exists>s'. Erase T this i s = (Inr i, s') \<and>
           contains s' this (take i xs @ drop (Suc i) xs) \<and>
           vec_data (vecs s' this) = vec_data (vecs s this) \<and>
           (\<forall>q. q \<noteq> this \<longrightarrow> vecs s' q = vecs s q) \<and>
           (\<forall>q. q \<noteq> raw_buffer (vec_data (vecs s this)) \<longrightarrow> block_at s' q = block_at s q) \<and>
           layout s' = layout s \<and> raws s' = raws s \<and> slot_bytes s' = slot_bytes s \<and>
           alloc_budget s' = alloc_budget s \<and>
           throw_budget s' = spend (assign_cost T (length xs - Suc i)) (throw_budget s) \<and>
           copy_calls s' = copy_calls s \<and> move_calls s' = move_calls s"
proof -
  let ?v = "vecs s this"
  let ?p = "raw_buffer (vec_data ?v)"
  let ?c = "raw_capacity (vec_data ?v)"
  let ?R = "replicate (?c - length xs) (None :: 'a option)"
  define A where "A = take i xs"
  define B where "B = drop (Suc i) xs"
  define h where "h = xs ! i"
  define l where "l = (if B = [] then h else moved_from T (last B))"
  note cD = containsD [OF c]
  have sz: "vec_size ?v = length xs" by (rule cD(1))
  from i cD(2) have cap: "?c \<noteq> 0" by auto
  have xs: "xs = A @ h # B"
    unfolding A_def B_def h_def using i by (simp add: id_take_nth_drop)
  have lA: "length A = i" and lB: "length B = length xs - Suc i"
    using i by (simp_all add: A_def B_def)
  have blk: "block_at s ?p = Some (map Some A @ Some h # map Some B @ ?R)"
    using cD(4) [OF cap] by (simp add: xs)
  have atB: "affordable (assign_cost T (length B)) (throw_budget s)"
    using at lB by simp
  define s1 where "s1 = (set_block ?p (Some (map Some (A @ B) @ Some l # ?R)) s)
      \<lparr>throw_budget := spend (assign_cost T (length B)) (throw_budget s)\<rparr>"
  have st1: "std_move T ?p (i + 1) (vec_size ?v - (i + 1)) ?p i s = (Inr (), s1)"
    using std_move_exec [OF blk atB] by (simp add: sz lA lB s1_def l_def)
  have c1: "contains s1 this ((A @ B) @ [l])"
    using cD blk by (simp add: contains_def Let_def s1_def xs block_at_set_block_same)
  have ne: "(A @ B) @ [l] \<noteq> []" by simp
  have e: "butlast ((A @ B) @ [l]) = A @ B" by (rule butlast_snoc)
  define s2 where "s2 = (set_block (raw_buffer (vec_data (vecs s1 this)))
          (Some (map Some (A @ B) @ replicate (Capacity s1 this - length (A @ B)) None)) s1)
        \<lparr>vecs := (vecs s1)(this := (vecs s1 this)\<lparr>vec_size := length ((A @ B) @ [l]) - 1\<rparr>)\<rparr>"
  have st2: "PopBack this s1 = (Inr (), s2)"
    using PopBack_exec [OF c1 ne] unfolding e s2_def .
  have ia: "(i < vec_size ?v) = True" using i sz by simp
  have run: "Erase T this i s = (Inr i, s2)"
    by (simp only: Erase_def Let_def bind_def assert_that_def ia if_True ret_def st1 st2
        prod.case sum.case)
  have v1: "vecs s1 = vecs s" "Capacity s1 this = ?c" by (simp_all add: s1_def Capacity_def)
  have b1: "block_at s1 ?p = Some (map Some (A @ B) @ Some l # ?R)"
    using blk by (simp add: s1_def block_at_set_block_same)
  have p0: "?p \<noteq> 0" using block_at_Some_range [OF blk] by simp
  have b2: "block_at s2 q =
      (if q = ?p then Some (map Some (A @ B) @ replicate (?c - length (A @ B)) None)
       else block_at s q)" for q
    using b1 p0 blk
    by (simp add: s2_def v1 block_at_set_block_same block_at_set_block_neq)
      (simp add: s1_def block_at_set_block_neq)
  have lAB: "length (A @ B) = length xs - 1" by (simp add: xs)
  have c2: "contains s2 this (A @ B)"
    using cD(2,3) cap b2 [of ?p] lAB
    by (simp add: contains_def Let_def s2_def v1)
  have ly1: "layout s1 = layout s"
    using layout_set_block [OF blk, of "map Some (A @ B) @ Some l # ?R"]
    by (simp add: s1_def layout_def)
  have len2: "length (map Some (A @ B) @ replicate (?c - length (A @ B)) None)
      = length (map Some (A @ B) @ Some l # ?R)"
    using cD(2) by (simp add: xs)
  have "layout s2 = layout (set_block ?p
      (Some (map Some (A @ B) @ replicate (?c - length (A @ B)) None)) s1)"
    by (simp add: s2_def v1 layout_def)
  also have "\<dots> = layout s1" by (rule layout_set_block [OF b1 len2])
  finally have ly2: "layout s2 = layout s1" .
  have "vec_data (vecs s2 this) = vec_data ?v" "\<forall>q. q \<noteq> this \<longrightarrow> vecs s2 q = vecs s q"
    "raws s2 = raws s" "slot_bytes s2 = slot_bytes s" "alloc_budget s2 = alloc_budget s"
    "throw_budget s2 = spend (assign_cost T (length xs - Suc i)) (throw_budget s)"
    "copy_calls s2 = copy_calls s" "move_calls s2 = move_calls s"
    by (simp_all add: s2_def s1_def lB)
  moreover have "\<forall>q. q \<noteq> ?p \<longrightarrow> block_at s2 q = block_at s q" by (simp add: b2)
  moreover have "layout s2 = layout s" using ly1 ly2 by simp
  ultimately show ?thesis
    using run c2 unfolding A_def B_def by blast
qed

section \<open>Example states\<close>

lemma vector_with_contains:
  "0 < length xs + k \<Longrightarrow> contains (vector_with xs k) 1 xs"
  by (auto simp: contains_def vector_with_def empty_machine_def block_at_def)

lemma vector_with_fields:
  "Capacity (vector_with xs k) (Suc 0) = length xs + k"
  "Size (vector_with xs k) (Suc 0) = length xs"
  "alloc_budget (vector_with xs k) = None"
  "throw_budget (vector_with xs k) = None"
  "copy_calls (vector_with xs k) = 0"
  "move_calls (vector_with xs k) = 0"
  "slot_bytes (vector_with xs k) = 4"
  "length (heap (vector_with xs k)) = 1"
  by (simp_all add: vector_with_def empty_machine_def Capacity_def Size_def)

lemma fits_small: "slot_bytes s = 4 \<Longrightarrow> n < 2 ^ 62 \<Longrightarrow> fits s n"
  by (simp add: fits_def)

section \<open>Operations that keep the buffer\<close>

lemma PopBack_keeps:
  "PopBack this s = (r, s') \<Longrightarrow> keeps_buffer this s s'"
  by (auto simp: PopBack_def Let_def bind_def assert_that_def ret_def fail_def set_vec_def
      keeps_buffer_def frame_def layout_def
      split: if_splits prod.splits sum.splits dest!: destroy_at_frame)

lemma keeps_buffer_frame: "frame s s' \<Longrightarrow> keeps_buffer this s s'"
  by (simp add: keeps_buffer_def frame_def)

lemma keeps_buffer_size:
  "frame s s1 \<Longrightarrow> keeps_buffer this s (s1\<lparr>vecs := (vecs s1)(this := (vecs s1 this)\<lparr>vec_size := n\<rparr>)\<rparr>)"
  by (simp add: keeps_buffer_def frame_def layout_def)

lemma Erase_keeps:
  "Erase T this i s = (r, s') \<Longrightarrow> keeps_buffer this s s'"
proof -
  assume e: "Erase T this i s = (r, s')"
  show ?thesis
  proof (cases "i < vec_size (vecs s this)")
    case False
    with e show ?thesis
      by (simp add: Erase_def Let_def bind_def assert_that_def fail_def keeps_buffer_def)
  next
    case True
    obtain r1 s1 where m: "std_move T (raw_buffer (vec_data (vecs s this))) (i + 1)
        (vec_size (vecs s this) - (i + 1)) (raw_buffer (vec_data (vecs s this))) i s = (r1, s1)"
      by (cases "std_move T (raw_buffer (vec_data (vecs s this))) (i + 1)
        (vec_size (vecs s this) - (i + 1)) (raw_buffer (vec_data (vecs s this))) i s")
    have f1: "frame s s1" by (rule std_move_frame [OF m])
    show ?thesis
    proof (cases r1)
      case (Inl x)
      with e True m have "s' = s1"
        by (simp add: Erase_def Let_def bind_def assert_that_def ret_def)
      with f1 show ?thesis by (simp add: keeps_buffer_frame)
    next
      case (Inr u)
      obtain r2 s2 where p: "PopBack this s1 = (r2, s2)" by (cases "PopBack this s1")
      from e True m Inr p have "s' = s2"
        by (cases r2) (simp_all add: Erase_def Let_def bind_def assert_that_def ret_def)
      with PopBack_keeps [OF p] f1 show ?thesis
        by (simp add: keeps_buffer_def frame_def)
    qed
  qed
qed

lemma Resize_shrink_keeps:
  assumes "Resize T this n s = (r, s')" and "n \<le> vec_size (vecs s this)"
  shows "keeps_buffer this s s'"
proof (cases "n < vec_size (vecs s this)")
  case True
  obtain r1 s1 where d: "destroy_n (raw_buffer (vec_data (vecs s this))) n
      (vec_size (vecs s this) - n) s = (r1, s1)"
    by (cases "destroy_n (raw_buffer (vec_data (vecs s this))) n
      (vec_size (vecs s this) - n) s")
  have f1: "frame s s1" by (rule destroy_n_frame [OF d])
  from assms(1) True d show ?thesis
    using keeps_buffer_frame [OF f1, of this] keeps_buffer_size [OF f1, of this n]
    by (cases r1) (auto simp: Resize_def Let_def bind_def set_vec_def)
next
  case False
  with assms have "n = vec_size (vecs s this)" by simp
  with assms(1) show ?thesis
    by (auto simp: Resize_def Let_def bind_def ret_def set_vec_def keeps_buffer_def layout_def)
qed

section \<open>What the shrinking operations leave\<close>

lemma PopBack_contains:
  assumes c: "contains s this xs" and ne: "xs \<noteq> []"
  shows "\<exists>s'. PopBack this s = (Inr (), s') \<and> contains s' this (butlast xs) \<and>
           throw_budget s' = throw_budget s \<and> copy_calls s' = copy_calls s \<and>
           move_calls s' = move_calls s \<and> slot_bytes s' = slot_bytes s"
proof -
  let ?p = "raw_buffer (vec_data (vecs s this))"
  let ?c = "raw_capacity (vec_data (vecs s this))"
  note cD = containsD [OF c]
  from ne cD(2) have cap: "?c \<noteq> 0" by (cases xs) auto
  have blk: "block_at s ?p = Some (map Some xs @ replicate (?c - length xs) None)"
    by (rule cD(4) [OF cap])
  have "contains ((set_block ?p
                 (Some (map Some (butlast xs) @
                    replicate (Capacity s this - length (butlast xs)) None)) s)
               \<lparr>vecs := (vecs s)(this := (vecs s this)\<lparr>vec_size := length xs - 1\<rparr>)\<rparr>)
          this (butlast xs)"
    using cD(2,3) cap blk
    by (simp add: contains_def Let_def Capacity_def block_at_set_block_same)
  then show ?thesis
    unfolding PopBack_exec [OF c ne] by simp
qed

lemma Resize_shrink_contains:
  assumes c: "contains s this xs" and n: "n \<le> length xs"
  shows "\<exists>s'. Resize T this n s = (Inr (), s') \<and> contains s' this (take n xs) \<and>
           throw_budget s' = throw_budget s \<and> copy_calls s' = copy_calls s \<and>
           move_calls s' = move_calls s \<and> slot_bytes s' = slot_bytes s"
proof (cases "n = length xs")
  case True
  with c show ?thesis by (simp add: Resize_same_exec [OF c])
next
  case False
  with n have n': "n < length xs" by simp
  let ?p = "raw_buffer (vec_data (vecs s this))"
  let ?c = "raw_capacity (vec_data (vecs s this))"
  note cD = containsD [OF c]
  from n' cD(2) have cap: "?c \<noteq> 0" by auto
  have blk: "block_at s ?p = Some (map Some xs @ replicate (?c - length xs) None)"
    by (rule cD(4) [OF cap])
  have "contains ((set_block ?p
                 (Some (map Some (take n xs) @ replicate (Capacity s this - n) None)) s)
               \<lparr>vecs := (vecs s)(this := (vecs s this)\<lparr>vec_size := n\<rparr>)\<rparr>)
          this (take n xs)"
    using cD(2,3) cap blk n'
    by (simp add: contains_def Let_def Capacity_def block_at_set_block_same min_def)
  then show ?thesis
    unfolding Resize_shrink_exec [OF c n'] by simp
qed


section \<open>Insertion in place\<close>

lemma move_construct_same:
  assumes "block_at s p = Some b" "si < length b" "di < length b" "b ! si = Some x"
    and "affordable (move_cost T 1) (throw_budget s)"
  shows "move_construct T p si p di s =
     (Inr (), (set_block p (Some (b[di := Some x, si := Some (moved_from T x)])) s)
                \<lparr>throw_budget := spend (move_cost T 1) (throw_budget s),
                  move_calls := Suc (move_calls s)\<rparr>)"
proof -
  have b2: "block_at (set_block p (Some (b[di := Some x])) s) p = Some (b[di := Some x])"
    using assms by (simp add: block_at_set_block_same)
  show ?thesis
  proof (cases "nothrow_move_constructible T")
    case True
    with assms b2 show ?thesis
      by (simp add: move_construct_def live_at_block bind_def ret_def put_slot_exec
          set_block_norm move_cost_def)
  next
    case False
    with assms b2 show ?thesis
      by (simp add: move_construct_def live_at_block bind_def may_throw_exec put_slot_exec
          set_block_norm move_cost_def)
  qed
qed

lemma shift_update:
  "(A @ B @ y # z # R)[Suc (length A + length B) := u, length A + length B := w]
   = A @ B @ w # u # R"
  by (simp add: list_update_append)

lemma shift_nth: "(A @ B @ y # R) ! (length A + length B) = y"
  by (simp add: nth_append)

lemma EmplaceShift_exec:
  assumes c: "contains s this xs"
    and i: "i < length xs"
    and room: "length xs < Capacity s this"
    and pr: "provides xs a x"
    and aff: "affordable (shift_cost T a (length xs - Suc i)) (throw_budget s)"
  shows "EmplaceShift T this i a s =
     (Inr (),
      (set_block (raw_buffer (vec_data (vecs s this)))
         (Some (map Some (take i xs @ x # drop i xs)
                @ replicate (Capacity s this - Suc (length xs)) None)) s)
       \<lparr>throw_budget := spend (shift_cost T a (length xs - Suc i)) (throw_budget s),
         copy_calls := copy_calls s + arg_copies a,
         move_calls := Suc (move_calls s + arg_moves a),
         vecs := (vecs s)(this := (vecs s this)\<lparr>vec_size := Suc (length xs)\<rparr>)\<rparr>)"
proof -
  let ?v = "vecs s this"
  let ?d = "vec_data ?v"
  let ?p = "raw_buffer ?d"
  let ?c = "raw_capacity ?d"
  let ?n = "length xs"
  let ?R = "replicate (?c - Suc ?n) (None :: 'a option)"
  let ?k = "?n - Suc i"
  note cD = containsD [OF c]
  have sz: "vec_size ?v = ?n" by (rule cD(1))
  from room have cap: "?c \<noteq> 0" "?n < ?c" by (simp_all add: Capacity_def)
  from i have n0: "?n \<noteq> 0" by auto
  define A where "A = take i xs"
  from i have "drop i xs \<noteq> []" by simp
  then obtain B l where dropi: "drop i xs = B @ [l]"
    by (cases "drop i xs" rule: rev_cases) auto
  have lenA: "length A = i" using i by (simp add: A_def)
  have "length (drop i xs) = Suc (length B)" unfolding dropi by simp
  then have lenB: "length B = ?k" using i by simp
  have lenAB: "length A + length B = ?n - 1" using lenA lenB i by simp
  have "take i xs @ drop i xs = A @ B @ [l]" unfolding dropi A_def ..
  then have xsdec: "xs = A @ B @ [l]" by simp
  have mo: "minus_one (vec_size ?v) = ?n - 1" using n0 sz by (simp add: minus_one_def)
  define t0 where "t0 = spend (arg_cost T a) (throw_budget s)"
  have a0: "affordable (arg_cost T a) (throw_budget s)"
    and a1: "affordable (move_cost T 1) t0"
    and a2: "affordable (assign_cost T ?k) (spend (move_cost T 1) t0)"
    and a3: "affordable (assign_cost T 1) (spend (assign_cost T ?k) (spend (move_cost T 1) t0))"
    using aff
      affordable_add [of "arg_cost T a" "move_cost T 1 + assign_cost T ?k + assign_cost T 1"
        "throw_budget s"]
      affordable_add [of "move_cost T 1" "assign_cost T ?k + assign_cost T 1" t0]
      affordable_add [of "assign_cost T ?k" "assign_cost T 1" "spend (move_cost T 1) t0"]
    unfolding t0_def
    by (simp_all add: shift_cost_def add.assoc)
  let ?b0 = "map Some A @ map Some B @ Some l # None # ?R"
  let ?b1 = "map Some A @ map Some B @ Some (moved_from T l) # Some l # ?R"
  let ?h = "if B = [] then moved_from T l else moved_from T (hd B)"
  let ?b2 = "map Some A @ Some ?h # map Some B @ Some l # ?R"
  let ?b3 = "map Some A @ Some x # map Some B @ Some l # ?R"
  have "?c - ?n = Suc (?c - Suc ?n)" using cap by arith
  then have spare: "replicate (?c - ?n) (None :: 'a option) = None # ?R"
    by simp
  have "map Some xs = map Some A @ map Some B @ [Some l]"
    by (subst xsdec) simp
  then have blk: "block_at s ?p = Some ?b0"
    using cD(4) [OF cap(1)] spare by simp
  define s0 where "s0 = s\<lparr>throw_budget := t0,
      copy_calls := copy_calls s + arg_copies a, move_calls := move_calls s + arg_moves a\<rparr>"
  define s1 where "s1 = (set_block ?p (Some ?b1) s0)
      \<lparr>throw_budget := spend (move_cost T 1) (throw_budget s0),
        move_calls := Suc (move_calls s0)\<rparr>"
  define s2 where "s2 = (set_block ?p (Some ?b2) s1)
      \<lparr>throw_budget := spend (assign_cost T ?k) (throw_budget s1)\<rparr>"
  define s3 where "s3 = (set_block ?p (Some ?b3) s2)
      \<lparr>throw_budget := spend (assign_cost T 1) (throw_budget s2)\<rparr>"
  have st0: "make_temp T ?p a s = (Inr x, s0)"
    unfolding s0_def t0_def by (rule make_temp_exec [OF provides_supplies [OF c pr] a0])
  have nm: "?n - 1 < ?c" using cap by arith
  have st1: "RawMemory_plus ?d (vec_size ?v) s0 = (Inr (?p, ?n), s0)"
    using cap sz by (simp add: RawMemory_plus_def assert_that_def bind_def ret_def)
  have st2: "RawMemory_index ?d (minus_one (vec_size ?v)) s0 = (Inr (?p, ?n - 1), s0)"
    using nm by (simp add: mo RawMemory_index_def assert_that_def bind_def ret_def)
  have blk0: "block_at s0 ?p = Some ?b0" using blk by (simp add: s0_def)
  have nAB: "?n = Suc (length A + length B)" by (subst xsdec) simp
  have idx0: "length A + length B < length ?b0" "Suc (length A + length B) < length ?b0"
    by simp_all
  have nth0: "?b0 ! (length A + length B) = Some l"
    using shift_nth [of "map Some A" "map Some B" "Some l" "None # ?R"] by simp
  have upd0: "?b0[Suc (length A + length B) := Some l,
                  length A + length B := Some (moved_from T l)] = ?b1"
    using shift_update [of "map Some A" "map Some B" "Some l" None ?R "Some l"
        "Some (moved_from T l)"] by simp
  have tb0: "throw_budget s0 = t0" "move_calls s0 = move_calls s + arg_moves a"
    by (simp_all add: s0_def)
  have st3': "move_construct T ?p (length A + length B) ?p (Suc (length A + length B)) s0
      = (Inr (), s1)"
    using move_construct_same [OF blk0 idx0 nth0, of T] a1
    unfolding upd0 s1_def tb0 by simp
  have st3: "move_construct T ?p (?n - 1) ?p ?n s0 = (Inr (), s1)"
    using st3' unfolding nAB by simp
  have st4: "RawMemory_plus ?d i s1 = (Inr (?p, i), s1)"
    using cap i by (simp add: RawMemory_plus_def assert_that_def bind_def ret_def)
  have blk1: "block_at s1 ?p = Some (map Some A @ map Some B @ Some (moved_from T l)
                 # (Some l # ?R))"
    using blk0 by (simp add: s1_def block_at_set_block_same)
  have tb1: "throw_budget s1 = spend (move_cost T 1) t0"
    by (simp add: s1_def s0_def)
  have st5': "std_move_backward T ?p (length A) (length B) ?p (Suc (length A + length B)) s1
              = (Inr (), s2)"
    using std_move_backward_exec [OF blk1, of T] a2 lenB
    by (simp add: s2_def tb1)
  have st5: "std_move_backward T ?p i (minus_one (vec_size ?v) - i) ?p ?n s1 = (Inr (), s2)"
    using st5' i lenA lenB n0 by (simp add: mo)
  have st6: "RawMemory_index ?d i s2 = (Inr (?p, i), s2)"
    using cap i by (simp add: RawMemory_index_def assert_that_def bind_def ret_def)
  have blk2: "block_at s2 ?p = Some ?b2"
    using blk1 by (simp add: s2_def block_at_set_block_same)
  have idx2: "i < length ?b2" "?b2 ! i \<noteq> None"
    using lenA by (simp_all add: nth_append)
  have upd2: "?b2[i := Some x] = ?b3"
    using lenA by (simp add: list_update_append)
  have tb2: "throw_budget s2 = spend (assign_cost T ?k) (spend (move_cost T 1) t0)"
    unfolding s2_def tb1 [symmetric] by simp
  have st7: "move_assign_value T x ?p i s2 = (Inr (), s3)"
    using move_assign_value_exec [OF blk2 idx2, of T x] a3
    by (simp only: upd2 s3_def tb2)
  have st8: "set_vec this (?v\<lparr>vec_size := Suc (vec_size ?v)\<rparr>) s3
             = (Inr (), s3\<lparr>vecs := (vecs s)(this := ?v\<lparr>vec_size := Suc ?n\<rparr>)\<rparr>)"
    by (simp add: set_vec_def s3_def s2_def s1_def s0_def sz)
  have run: "EmplaceShift T this i a s
      = (Inr (), s3\<lparr>vecs := (vecs s)(this := ?v\<lparr>vec_size := Suc ?n\<rparr>)\<rparr>)"
    by (simp only: EmplaceShift_def Let_def bind_def st0 st1 st2 st3 st4 st5 st6 st7 st8
        prod.case sum.case)
  have fin: "map Some (take i xs @ x # drop i xs) @ ?R = ?b3"
    unfolding dropi A_def [symmetric] by simp
  have "s3\<lparr>vecs := (vecs s)(this := ?v\<lparr>vec_size := Suc ?n\<rparr>)\<rparr> =
      (set_block ?p (Some (map Some (take i xs @ x # drop i xs) @ ?R)) s)
       \<lparr>throw_budget := spend (shift_cost T a ?k) (throw_budget s),
         copy_calls := copy_calls s + arg_copies a,
         move_calls := Suc (move_calls s + arg_moves a),
         vecs := (vecs s)(this := ?v\<lparr>vec_size := Suc ?n\<rparr>)\<rparr>"
    unfolding fin
    by (simp add: s3_def s2_def s1_def s0_def t0_def set_block_norm shift_cost_def add.assoc)
  with run show ?thesis by (simp add: Capacity_def)
qed

section \<open>Appending and inserting: the result as a good state\<close>

lemma affordable_no_faults [simp]:
  "no_faults s \<Longrightarrow> affordable n (throw_budget s)"
  "no_faults s \<Longrightarrow> affordable n (alloc_budget s)"
  by (simp_all add: no_faults_def)

lemma EmplaceBack_inplace_contains:
  assumes c: "contains s this xs"
    and room: "length xs < Capacity s this"
    and pr: "provides xs a x"
    and aff: "affordable (arg_cost T a) (throw_budget s)"
  shows "\<exists>s'. EmplaceBack T this a s
             = (Inr (raw_buffer (vec_data (vecs s this)), length xs), s') \<and>
           contains s' this (xs @ [x]) \<and> keeps_buffer this s s' \<and>
           slot_bytes s' = slot_bytes s \<and>
           throw_budget s' = spend (arg_cost T a) (throw_budget s) \<and>
           copy_calls s' = copy_calls s + arg_copies a \<and>
           move_calls s' = move_calls s + arg_moves a"
proof -
  let ?p = "raw_buffer (vec_data (vecs s this))"
  let ?c = "raw_capacity (vec_data (vecs s this))"
  let ?b = "map Some (xs @ [x]) @ replicate (Capacity s this - Suc (length xs)) None"
  define s' where "s' = (set_block ?p (Some ?b) s)
       \<lparr>throw_budget := spend (arg_cost T a) (throw_budget s),
         copy_calls := copy_calls s + arg_copies a,
         move_calls := move_calls s + arg_moves a,
         vecs := (vecs s)(this := (vecs s this)\<lparr>vec_size := Suc (length xs)\<rparr>)\<rparr>"
  note cD = containsD [OF c]
  from room have cap: "?c \<noteq> 0" "length xs < ?c" by (simp_all add: Capacity_def)
  have blk: "block_at s ?p = Some (map Some xs @ replicate (?c - length xs) None)"
    by (rule cD(4) [OF cap(1)])
  have run: "EmplaceBack T this a s = (Inr (?p, length xs), s')"
    unfolding s'_def by (rule EmplaceBack_inplace_exec [OF c room pr aff])
  have c': "contains s' this (xs @ [x])"
    using cD(3) cap blk
    by (simp add: contains_def Let_def s'_def Capacity_def block_at_set_block_same)
  have len: "length ?b = length (map Some xs @ replicate (?c - length xs) None)"
    using cap by (simp add: Capacity_def)
  have k: "keeps_buffer this s s'"
    using layout_set_block [OF blk len]
    by (simp add: keeps_buffer_def s'_def layout_def)
  from run c' k show ?thesis
    by (intro exI [of _ s']) (simp add: s'_def)
qed

lemma EmplaceShift_contains:
  assumes c: "contains s this xs"
    and i: "i < length xs"
    and room: "length xs < Capacity s this"
    and pr: "provides xs a x"
    and aff: "affordable (shift_cost T a (length xs - Suc i)) (throw_budget s)"
  shows "\<exists>s'. EmplaceShift T this i a s = (Inr (), s') \<and>
           contains s' this (take i xs @ x # drop i xs) \<and> keeps_buffer this s s' \<and>
           slot_bytes s' = slot_bytes s \<and>
           throw_budget s' = spend (shift_cost T a (length xs - Suc i)) (throw_budget s) \<and>
           copy_calls s' = copy_calls s + arg_copies a \<and>
           move_calls s' = Suc (move_calls s + arg_moves a)"
proof -
  let ?p = "raw_buffer (vec_data (vecs s this))"
  let ?c = "raw_capacity (vec_data (vecs s this))"
  let ?b = "map Some (take i xs @ x # drop i xs)
            @ replicate (Capacity s this - Suc (length xs)) None"
  define s' where "s' = (set_block ?p (Some ?b) s)
       \<lparr>throw_budget := spend (shift_cost T a (length xs - Suc i)) (throw_budget s),
         copy_calls := copy_calls s + arg_copies a,
         move_calls := Suc (move_calls s + arg_moves a),
         vecs := (vecs s)(this := (vecs s this)\<lparr>vec_size := Suc (length xs)\<rparr>)\<rparr>"
  note cD = containsD [OF c]
  from room have cap: "?c \<noteq> 0" "length xs < ?c" by (simp_all add: Capacity_def)
  have blk: "block_at s ?p = Some (map Some xs @ replicate (?c - length xs) None)"
    by (rule cD(4) [OF cap(1)])
  have run: "EmplaceShift T this i a s = (Inr (), s')"
    unfolding s'_def by (rule EmplaceShift_exec [OF c i room pr aff])
  have ly: "length (take i xs @ x # drop i xs) = Suc (length xs)" using i by simp
  have c': "contains s' this (take i xs @ x # drop i xs)"
    unfolding contains_def Let_def ly
    using cD(3) cap blk ly
    by (simp add: s'_def Capacity_def block_at_set_block_same)
  have len: "length ?b = length (map Some xs @ replicate (?c - length xs) None)"
    using cap i by (simp add: Capacity_def)
  have k: "keeps_buffer this s s'"
    using layout_set_block [OF blk len]
    by (simp add: keeps_buffer_def s'_def layout_def)
  from run c' k show ?thesis
    by (intro exI [of _ s']) (simp add: s'_def)
qed

text \<open>The throwing operations of an \<^verbatim>\<open>Emplace\<close> at \<open>i\<close> into \<open>n\<close> elements.\<close>

lemma Emplace_exec:
  assumes c: "contains s this xs" and i: "i \<le> length xs"
    and pr: "provides xs a x"
    and ft: "length xs < Capacity s this \<or> fits s (if length xs = 0 then 1 else length xs * 2)"
    and aa: "length xs < Capacity s this \<or> affordable 1 (alloc_budget s)"
    and at: "affordable
       (if length xs < Capacity s this
        then (if i = length xs then arg_cost T a else shift_cost T a (length xs - Suc i))
        else arg_cost T a + move_cost T (length xs)) (throw_budget s)"
  shows "\<exists>s'. Emplace T this i a s = (Inr i, s') \<and>
           contains s' this (take i xs @ x # drop i xs) \<and>
           Capacity s' this =
             (if length xs < Capacity s this then Capacity s this
              else if length xs = 0 then 1 else length xs * 2) \<and>
           (length xs < Capacity s this \<longrightarrow> keeps_buffer this s s') \<and>
           (\<forall>q. q \<noteq> this \<longrightarrow> vecs s' q = vecs s q) \<and>
           slot_bytes s' = slot_bytes s \<and>
           (no_faults s \<longrightarrow> no_faults s')"
proof -
  note cD = containsD [OF c]
  have sz: "vec_size (vecs s this) = length xs" by (rule cD(1))
  show ?thesis
  proof (cases "length xs < Capacity s this")
    case True
    note room = True
    show ?thesis
    proof (cases "i = length xs")
      case True
      from at room True have at': "affordable (arg_cost T a) (throw_budget s)" by simp
      from EmplaceBack_inplace_contains [OF c room pr at'] obtain s' where
        r: "EmplaceBack T this a s = (Inr (raw_buffer (vec_data (vecs s this)), length xs), s')"
        and c': "contains s' this (xs @ [x])" and k: "keeps_buffer this s s'"
        and sb: "slot_bytes s' = slot_bytes s"
        and tb: "throw_budget s' = spend (arg_cost T a) (throw_budget s)"
        by blast
      have run: "Emplace T this i a s = (Inr i, s')"
        using room True by (simp add: Emplace_def Let_def sz bind_def r ret_def)
      have "Capacity s' this = Capacity s this"
        using k by (simp add: keeps_buffer_def Capacity_def)
      moreover have "no_faults s \<longrightarrow> no_faults s'"
        using k tb by (simp add: no_faults_def keeps_buffer_def)
      ultimately show ?thesis
        using run c' k sb room True by (auto simp: keeps_buffer_def)
    next
      case False
      with i have i': "i < length xs" by simp
      from at room False have at': "affordable (shift_cost T a (length xs - Suc i))
          (throw_budget s)" by simp
      from EmplaceShift_contains [OF c i' room pr at'] obtain s' where
        r: "EmplaceShift T this i a s = (Inr (), s')"
        and c': "contains s' this (take i xs @ x # drop i xs)"
        and k: "keeps_buffer this s s'" and sb: "slot_bytes s' = slot_bytes s"
        and tb: "throw_budget s' = spend (shift_cost T a (length xs - Suc i)) (throw_budget s)"
        by blast
      have run: "Emplace T this i a s = (Inr i, s')"
        using room False by (simp add: Emplace_def Let_def sz bind_def r ret_def)
      have "Capacity s' this = Capacity s this"
        using k by (simp add: keeps_buffer_def Capacity_def)
      moreover have "no_faults s \<longrightarrow> no_faults s'"
        using k tb by (simp add: no_faults_def keeps_buffer_def)
      ultimately show ?thesis
        using run c' k sb room by (auto simp: keeps_buffer_def)
    qed
  next
    case False
    with cD(2) have full: "Capacity s this = length xs" by (simp add: Capacity_def)
    from ft aa False have ft': "fits s (if length xs = 0 then 1 else length xs * 2)"
      and aa': "affordable 1 (alloc_budget s)" by simp_all
    from at False have at': "affordable (arg_cost T a + move_cost T (length xs))
        (throw_budget s)" by simp
    let ?m = "if length xs = 0 then 1 else length xs * 2"
    let ?ys = "take i xs @ x # drop i xs"
    from EmplaceReallocate_exec [OF c full i pr ft' aa' at'] obtain s' where
      r: "EmplaceReallocate T this i a s = (Inr (), s')"
      and re: "reallocated s this ?m ?ys s'"
      and tb: "throw_budget s' = spend (arg_cost T a + move_cost T (length xs)) (throw_budget s)"
      by blast
    have run: "Emplace T this i a s = (Inr i, s')"
      using False by (simp add: Emplace_def Let_def sz bind_def r ret_def)
    have le: "length ?ys \<le> ?m" using i by (cases xs) auto
    have m0: "?m \<noteq> 0" by simp
    note rD = reallocatedD [OF re le m0]
    have nf: "no_faults s \<longrightarrow> no_faults s'"
      using re tb by (simp add: no_faults_def reallocated_def)
    have sb: "slot_bytes s' = slot_bytes s" using re by (simp add: reallocated_def)
    from run rD(1,2) rD(4) nf sb False show ?thesis by auto
  qed
qed

lemma PushBack_exec:
  assumes c: "contains s this xs"
    and pr: "provides xs a x"
    and ft: "length xs < Capacity s this \<or> fits s (if length xs = 0 then 1 else length xs * 2)"
    and aa: "length xs < Capacity s this \<or> affordable 1 (alloc_budget s)"
    and at: "affordable
       (if length xs < Capacity s this then arg_cost T a
        else arg_cost T a + move_cost T (length xs)) (throw_budget s)"
  shows "\<exists>s'. PushBack T this a s = (Inr (), s') \<and>
           contains s' this (xs @ [x]) \<and>
           Capacity s' this =
             (if length xs < Capacity s this then Capacity s this
              else if length xs = 0 then 1 else length xs * 2) \<and>
           (length xs < Capacity s this \<longrightarrow> keeps_buffer this s s') \<and>
           (\<forall>q. q \<noteq> this \<longrightarrow> vecs s' q = vecs s q) \<and>
           slot_bytes s' = slot_bytes s \<and>
           (no_faults s \<longrightarrow> no_faults s')"
proof (cases "length xs < Capacity s this")
  case True
  from at True have at': "affordable (arg_cost T a) (throw_budget s)" by simp
  from EmplaceBack_inplace_contains [OF c True pr at'] obtain s' where
    r: "EmplaceBack T this a s = (Inr (raw_buffer (vec_data (vecs s this)), length xs), s')"
    and c': "contains s' this (xs @ [x])" and k: "keeps_buffer this s s'"
    and sb: "slot_bytes s' = slot_bytes s"
    and tb: "throw_budget s' = spend (arg_cost T a) (throw_budget s)"
    by blast
  have run: "PushBack T this a s = (Inr (), s')"
    by (simp add: PushBack_def bind_def r ret_def)
  have "Capacity s' this = Capacity s this"
    using k by (simp add: keeps_buffer_def Capacity_def)
  moreover have "no_faults s \<longrightarrow> no_faults s'"
    using k tb by (simp add: no_faults_def keeps_buffer_def)
  ultimately show ?thesis
    using run c' k sb True by (auto simp: keeps_buffer_def)
next
  case False
  note cD = containsD [OF c]
  from False cD(2) have full: "Capacity s this = length xs" by (simp add: Capacity_def)
  from ft aa False have ft': "fits s (if length xs = 0 then 1 else length xs * 2)"
    and aa': "affordable 1 (alloc_budget s)" by simp_all
  from at False have at': "affordable (arg_cost T a + move_cost T (length xs))
      (throw_budget s)" by simp
  let ?m = "if length xs = 0 then 1 else length xs * 2"
  from EmplaceBack_grow_exec [OF c full pr ft' aa' at'] obtain s' where
    r: "EmplaceBack T this a s = (Inr (Suc (length (heap s)), length xs), s')"
    and re: "reallocated s this ?m (xs @ [x]) s'"
    and tb: "throw_budget s' = spend (arg_cost T a + move_cost T (length xs)) (throw_budget s)"
    by blast
  have run: "PushBack T this a s = (Inr (), s')"
    by (simp add: PushBack_def bind_def r ret_def)
  have le: "length (xs @ [x]) \<le> ?m" by (cases xs) auto
  have m0: "?m \<noteq> 0" by simp
  note rD = reallocatedD [OF re le m0]
  have nf: "no_faults s \<longrightarrow> no_faults s'"
    using re tb by (simp add: no_faults_def reallocated_def)
  have sb: "slot_bytes s' = slot_bytes s" using re by (simp add: reallocated_def)
  from run rD(1,2) rD(4) nf sb False show ?thesis by auto
qed

section \<open>The capacity after a reallocation that returns\<close>

lemma RawMemory_ctor_capacity:
  "RawMemory_ctor n s = (Inr nd, s1) \<Longrightarrow> raw_capacity nd = n"
  by (auto simp: RawMemory_ctor_def bind_Inr ret_def)

lemma tail_vecs:
  assumes "bind (destroy_n p 0 n) (\<lambda>_. bind (set_vec this v') (\<lambda>_. RawMemory_dtor m)) s
           = (Inr u, s')"
  shows "vecs s' this = v'"
proof -
  from assms obtain s1 s2 where "set_vec this v' s1 = (Inr (), s2)"
    and d: "RawMemory_dtor m s2 = (Inr u, s')"
    by (auto simp: bind_Inr)
  then have "vecs s2 this = v'" by (auto simp: set_vec_def)
  with Deallocate_vecs [OF d [unfolded RawMemory_dtor_def]] show ?thesis by simp
qed

lemma EmplaceBack_capacity:
  assumes r: "EmplaceBack T this a s = (Inr r, s')"
    and full: "vec_size (vecs s this) = Capacity s this"
  shows "Capacity s' this
         = (if Capacity s this = 0 then 1 else (Capacity s this * 2) mod 2 ^ 64)"
proof -
  let ?v = "vecs s this"
  let ?m = "if vec_size ?v = 0 then 1 else (vec_size ?v * 2) mod 2 ^ 64"
  let ?B = "\<lambda>new_data. on_throw
                     (bind (RawMemory_plus new_data (vec_size ?v)) (\<lambda>(p, i).
                        bind (construct_from T (raw_buffer (vec_data ?v)) a p i) (\<lambda>_.
                          transfer T (raw_buffer (vec_data ?v)) 0 (vec_size ?v)
                            (raw_buffer new_data) 0)))
                     (RawMemory_dtor new_data)"
  let ?L = "\<lambda>new_data. bind (destroy_n (raw_buffer (vec_data ?v)) 0 (vec_size ?v))
                  (\<lambda>_. let (d1, nd1) = RawMemory_Swap (vec_data ?v) new_data
                        in bind (set_vec this (?v\<lparr>vec_data := d1\<rparr>))
                             (\<lambda>_. RawMemory_dtor nd1))"
  let ?K = "\<lambda>(_ :: unit) s1. let v1 = vecs s1 this
             in bind (set_vec this (v1\<lparr>vec_size := Suc (vec_size v1)\<rparr>))
                  (\<lambda>_. RawMemory_index (vec_data v1) (Suc (vec_size v1) - 1)) s1"
  have c0: "(vec_size ?v = Capacity s this) = True" using full by simp
  have e: "EmplaceBack T this a s
      = bind (bind (RawMemory_ctor ?m) (\<lambda>new_data. bind (?B new_data) (\<lambda>_. ?L new_data))) ?K s"
    by (simp only: EmplaceBack_alt Let_def c0 if_True)
  from r [unfolded e bind_Inr [of "bind (RawMemory_ctor _) _"]] obtain x sA where
    g: "bind (RawMemory_ctor ?m) (\<lambda>new_data. bind (?B new_data) (\<lambda>_. ?L new_data)) s
        = (Inr x, sA)"
    and t: "?K x sA = (Inr r, s')"
    by blast
  from t have c1: "Capacity s' this = Capacity sA this"
    by (auto simp: Let_def bind_Inr set_vec_def RawMemory_index_def assert_that_def ret_def
        fail_def Capacity_def split: if_splits)
  from g [unfolded bind_Inr [of "RawMemory_ctor _"]] obtain nd s1 where
    a: "RawMemory_ctor ?m s = (Inr nd, s1)"
    and g2: "bind (?B nd) (\<lambda>_. ?L nd) s1 = (Inr x, sA)"
    by blast
  from g2 [unfolded bind_Inr [of "on_throw _ _"]] obtain s2 where
    tl: "?L nd s2 = (Inr x, sA)"
    by blast
  have tl': "bind (destroy_n (raw_buffer (vec_data ?v)) 0 (vec_size ?v))
          (\<lambda>_. bind (set_vec this (?v\<lparr>vec_data := (vec_data ?v)
                    \<lparr>raw_buffer := raw_buffer nd, raw_capacity := raw_capacity nd\<rparr>\<rparr>))
             (\<lambda>_. RawMemory_dtor (nd
                    \<lparr>raw_buffer := raw_buffer (vec_data ?v),
                      raw_capacity := raw_capacity (vec_data ?v)\<rparr>))) s2 = (Inr x, sA)"
    using tl by (simp only: RawMemory_Swap_def Let_def prod.case)
  from tail_vecs [OF tl'] RawMemory_ctor_capacity [OF a]
  have "Capacity sA this = ?m" by (simp add: Capacity_def)
  with c1 full show ?thesis by simp
qed

lemma EmplaceReallocate_capacity:
  assumes r: "EmplaceReallocate T this i a s = (Inr u, s')"
  shows "Capacity s' this
         = (if vec_size (vecs s this) = 0 then 1 else (vec_size (vecs s this) * 2) mod 2 ^ 64)"
proof -
  let ?v = "vecs s this"
  let ?m = "if vec_size ?v = 0 then 1 else (vec_size ?v * 2) mod 2 ^ 64"
  let ?B = "\<lambda>new_data. on_throw
                      (bind (RawMemory_plus new_data i) (\<lambda>(p, i').
                         bind (construct_from T (raw_buffer (vec_data ?v)) a p i') (\<lambda>_.
                           on_throw
                             (bind (transfer T (raw_buffer (vec_data ?v)) 0 i
                                      (raw_buffer new_data) 0)
                                (\<lambda>_. transfer T (raw_buffer (vec_data ?v)) i (vec_size ?v - i)
                                        (raw_buffer new_data) (i + 1)))
                             (destroy_n (raw_buffer new_data) i 1))))
                      (RawMemory_dtor new_data)"
  let ?L = "\<lambda>new_data. bind (destroy_n (raw_buffer (vec_data ?v)) 0 (vec_size ?v))
                   (\<lambda>_. let (d1, nd1) = RawMemory_Swap (vec_data ?v) new_data
                         in bind (set_vec this
                                    (?v\<lparr>vec_data := d1, vec_size := Suc (vec_size ?v)\<rparr>))
                              (\<lambda>_. RawMemory_dtor nd1))"
  have e: "EmplaceReallocate T this i a s
      = bind (RawMemory_ctor ?m) (\<lambda>new_data. bind (?B new_data) (\<lambda>_. ?L new_data)) s"
    by (simp only: EmplaceReallocate_alt Let_def)
  from r [unfolded e bind_Inr [of "RawMemory_ctor _"]] obtain nd s1 where
    a: "RawMemory_ctor ?m s = (Inr nd, s1)"
    and g2: "bind (?B nd) (\<lambda>_. ?L nd) s1 = (Inr u, s')"
    by blast
  from g2 [unfolded bind_Inr [of "on_throw _ _"]] obtain s2 where
    tl: "?L nd s2 = (Inr u, s')"
    by blast
  have tl': "bind (destroy_n (raw_buffer (vec_data ?v)) 0 (vec_size ?v))
          (\<lambda>_. bind (set_vec this (?v\<lparr>vec_data := (vec_data ?v)
                    \<lparr>raw_buffer := raw_buffer nd, raw_capacity := raw_capacity nd\<rparr>,
                    vec_size := Suc (vec_size ?v)\<rparr>))
             (\<lambda>_. RawMemory_dtor (nd
                    \<lparr>raw_buffer := raw_buffer (vec_data ?v),
                      raw_capacity := raw_capacity (vec_data ?v)\<rparr>))) s2 = (Inr u, s')"
    using tl by (simp only: RawMemory_Swap_def Let_def prod.case)
  from tail_vecs [OF tl'] RawMemory_ctor_capacity [OF a]
  show ?thesis by (simp add: Capacity_def)
qed

lemma doubled:
  assumes "fits s (if n = 0 then 1 else n * 2)"
  shows "(if n = 0 then 1 else (n * 2) mod 2 ^ 64) = max 1 (2 * n)"
  using fits_bound [OF assms] by (auto simp: max_def)

section \<open>Repeated PushBack\<close>

lemma capacities_ge: "n \<le> capacities n"
  by (induction n) (auto simp: max_def)

lemma capacities_pow2:
  "0 < n \<Longrightarrow> \<exists>k. capacities n = 2 ^ k \<and> n \<le> 2 ^ k \<and> 2 ^ k < 2 * n"
proof (induction n)
  case 0
  then show ?case by simp
next
  case (Suc n)
  show ?case
  proof (cases "n = 0")
    case True
    then show ?thesis by (auto intro: exI [of _ 0])
  next
    case False
    with Suc.IH obtain k where k: "capacities n = 2 ^ k" "n \<le> 2 ^ k" "2 ^ k < 2 * n"
      by auto
    show ?thesis
    proof (cases "n < capacities n")
      case True
      with k show ?thesis by (auto intro: exI [of _ k])
    next
      case False
      with k have "n = 2 ^ k" by simp
      with k False show ?thesis
        by (auto simp: max_def intro!: exI [of _ "Suc k"])
    qed
  qed
qed

lemma fits_cong: "slot_bytes s' = slot_bytes s \<Longrightarrow> fits s' n = fits s n"
  by (simp add: fits_def)

lemma push_all_snoc:
  "push_all T this (ys @ [y]) s =
     (case push_all T this ys s of
        (Inl e, s1) \<Rightarrow> (Inl e, s1)
      | (Inr _, s1) \<Rightarrow> bind (PushBack T this (Copy (External y))) (\<lambda>_. ret ()) s1)"
proof (induction ys arbitrary: s)
  case Nil
  show ?case
    by (simp add: bind_def ret_def split: prod.splits sum.splits)
next
  case (Cons z ys)
  show ?case
    by (simp add: Cons.IH split: prod.splits sum.splits)
qed

lemma push_all_exec:
  assumes c: "contains s this []" and cap: "Capacity s this = 0"
    and nf: "no_faults s"
    and ft: "fits s (2 * length ys)" and sb: "0 < slot_bytes s \<and> slot_bytes s < 2 ^ 64"
  shows "\<exists>s'. push_all T this ys s = (Inr (), s') \<and> contains s' this ys \<and>
           Capacity s' this = capacities (length ys) \<and> no_faults s' \<and>
           slot_bytes s' = slot_bytes s"
  using ft
proof (induction ys rule: rev_induct)
  case Nil
  with c cap nf show ?case by simp
next
  case (snoc y ys)
  have "fits s (2 * length ys)"
    by (rule fits_mono [OF snoc.prems]) simp
  from snoc.IH [OF this] obtain s1 where
    r1: "push_all T this ys s = (Inr (), s1)" and c1: "contains s1 this ys"
    and cap1: "Capacity s1 this = capacities (length ys)" and nf1: "no_faults s1"
    and sb1: "slot_bytes s1 = slot_bytes s"
    by blast
  have pr: "provides ys (Copy (External y)) y" by (simp add: provides_def)
  have f1: "fits s (if length ys = 0 then 1 else length ys * 2)"
  proof (cases "length ys = 0")
    case True
    with sb show ?thesis by (simp add: fits_def)
  next
    case False
    have "fits s (length ys * 2)" by (rule fits_mono [OF snoc.prems]) simp
    with False show ?thesis by simp
  qed
  have ft1: "length ys < Capacity s1 this \<or>
      fits s1 (if length ys = 0 then 1 else length ys * 2)"
    using f1 fits_cong [OF sb1] by simp
  have aa: "length ys < Capacity s1 this \<or> affordable 1 (alloc_budget s1)"
    using nf1 by simp
  have at: "affordable
       (if length ys < Capacity s1 this then arg_cost T (Copy (External y))
        else arg_cost T (Copy (External y)) + move_cost T (length ys)) (throw_budget s1)"
    using nf1 by (rule affordable_no_faults)
  from PushBack_exec [OF c1 pr ft1 aa at] obtain s2 where
    r2: "PushBack T this (Copy (External y)) s1 = (Inr (), s2)"
    and c2: "contains s2 this (ys @ [y])"
    and cap2: "Capacity s2 this =
             (if length ys < Capacity s1 this then Capacity s1 this
              else if length ys = 0 then 1 else length ys * 2)"
    and sb2: "slot_bytes s2 = slot_bytes s1" and nf2: "no_faults s1 \<longrightarrow> no_faults s2"
    by blast
  have run: "push_all T this (ys @ [y]) s = (Inr (), s2)"
    by (simp add: push_all_snoc r1 bind_def r2 ret_def)
  have "Capacity s2 this = capacities (length (ys @ [y]))"
  proof (cases "length ys < capacities (length ys)")
    case True
    with cap2 cap1 show ?thesis by simp
  next
    case False
    with capacities_ge [of "length ys"] have e: "capacities (length ys) = length ys" by simp
    with cap2 cap1 False show ?thesis by (cases ys) (auto simp: max_def)
  qed
  with run c2 nf1 nf2 sb1 sb2 show ?case by auto
qed

section \<open>Growth of the capacity\<close>

text \<open>
  C4. Let the vector hold \<open>xs\<close> with its count equal to its capacity, and let
  \<open>max(1, 2 * capacity)\<close> objects fit into \<^verbatim>\<open>size_t\<close> bytes (as they do whenever the
  present block takes less than half of the address space). Whatever the constructor
  arguments, an \<^verbatim>\<open>EmplaceBack\<close>, a \<^verbatim>\<open>PushBack\<close> or an \<^verbatim>\<open>Emplace\<close> that returns normally
  leaves the capacity \<open>max(1, 2 * capacity)\<close>. They do return normally when nothing
  throws and the arguments yield a value \<open>x\<close> without modifying an element of the
  vector; the vector then holds \<open>xs\<close> with \<open>x\<close> appended, or inserted at the position
  given. Consequently, appending the values \<open>ys\<close> one after the other to an empty
  vector of capacity 0 leads to the capacity \<open>capacities (length ys)\<close>, which is for
  \<open>ys\<close> not empty the power of two \<open>2 ^ k\<close> with \<open>length ys \<le> 2 ^ k < 2 * length ys\<close>: the
  capacity runs through 1, 2, 4, 8, ...
\<close>

theorem growth_spec:
  assumes c: "contains s this xs" and full: "Size s this = Capacity s this"
    and ft: "fits s (max 1 (2 * Capacity s this))"
  shows
    "(\<forall>r s'. EmplaceBack T this a s = (Inr r, s') \<longrightarrow>
        Capacity s' this = max 1 (2 * Capacity s this)) \<and>
     (\<forall>s'. PushBack T this a s = (Inr (), s') \<longrightarrow>
        Capacity s' this = max 1 (2 * Capacity s this)) \<and>
     (\<forall>r s'. Emplace T this i a s = (Inr r, s') \<longrightarrow>
        Capacity s' this = max 1 (2 * Capacity s this)) \<and>
     (provides xs a x \<and> no_faults s \<longrightarrow>
        (\<exists>s'. PushBack T this a s = (Inr (), s') \<and> contains s' this (xs @ [x]) \<and>
           Capacity s' this = max 1 (2 * Capacity s this)) \<and>
        (i \<le> length xs \<longrightarrow>
           (\<exists>s'. Emplace T this i a s = (Inr i, s') \<and>
              contains s' this (take i xs @ x # drop i xs) \<and>
              Capacity s' this = max 1 (2 * Capacity s this)))) \<and>
     (xs = [] \<and> Capacity s this = 0 \<and> no_faults s \<and> fits s (max 1 (2 * length ys)) \<longrightarrow>
        (\<exists>s'. push_all T this ys s = (Inr (), s') \<and> contains s' this ys \<and>
           Capacity s' this = capacities (length ys) \<and>
           (ys \<noteq> [] \<longrightarrow>
              (\<exists>k. Capacity s' this = 2 ^ k \<and> length ys \<le> 2 ^ k \<and>
                 2 ^ k < 2 * length ys))))"
proof -
  note cD = containsD [OF c]
  have sz: "vec_size (vecs s this) = Capacity s this" using full by (simp add: Size_def)
  have cl: "Capacity s this = length xs" using sz cD(1) by simp
  have ft': "fits s (if Capacity s this = 0 then 1 else Capacity s this * 2)"
    using ft by (auto simp: max_def mult.commute split: if_splits)
  have dbl: "(if Capacity s this = 0 then 1 else (Capacity s this * 2) mod 2 ^ 64)
      = max 1 (2 * Capacity s this)"
    by (rule doubled [OF ft'])
  have eb: "Capacity s' this = max 1 (2 * Capacity s this)"
    if "EmplaceBack T this a s = (Inr r, s')" for r s'
    using EmplaceBack_capacity [OF that sz] unfolding dbl .
  have pb: "Capacity s' this = max 1 (2 * Capacity s this)"
    if "PushBack T this a s = (Inr (), s')" for s'
  proof -
    from that obtain r where "EmplaceBack T this a s = (Inr r, s')"
      by (auto simp: PushBack_def bind_Inr ret_def)
    then show ?thesis by (rule eb)
  qed
  have em: "Capacity s' this = max 1 (2 * Capacity s this)"
    if "Emplace T this i a s = (Inr r, s')" for r s'
  proof -
    from that sz obtain u where "EmplaceReallocate T this i a s = (Inr u, s')"
      by (auto simp: Emplace_def Let_def bind_Inr ret_def)
    from EmplaceReallocate_capacity [OF this] show ?thesis
      unfolding sz dbl .
  qed
  have tot: "(\<exists>s'. PushBack T this a s = (Inr (), s') \<and> contains s' this (xs @ [x]) \<and>
           Capacity s' this = max 1 (2 * Capacity s this)) \<and>
        (i \<le> length xs \<longrightarrow>
           (\<exists>s'. Emplace T this i a s = (Inr i, s') \<and>
              contains s' this (take i xs @ x # drop i xs) \<and>
              Capacity s' this = max 1 (2 * Capacity s this)))"
    if pr: "provides xs a x" and nf: "no_faults s"
  proof (intro conjI impI)
    have f: "length xs < Capacity s this \<or>
        fits s (if length xs = 0 then 1 else length xs * 2)"
      using ft' unfolding cl by simp
    have aa: "length xs < Capacity s this \<or> affordable 1 (alloc_budget s)"
      using nf by simp
    have at: "affordable
       (if length xs < Capacity s this then arg_cost T a
        else arg_cost T a + move_cost T (length xs)) (throw_budget s)"
      using nf by (rule affordable_no_faults)
    from PushBack_exec [OF c pr f aa at] obtain s' where
      r: "PushBack T this a s = (Inr (), s')" and c': "contains s' this (xs @ [x])"
      by blast
    from r c' pb [OF r]
    show "\<exists>s'. PushBack T this a s = (Inr (), s') \<and> contains s' this (xs @ [x]) \<and>
           Capacity s' this = max 1 (2 * Capacity s this)" by blast
    assume i: "i \<le> length xs"
    have at2: "affordable
       (if length xs < Capacity s this
        then (if i = length xs then arg_cost T a else shift_cost T a (length xs - Suc i))
        else arg_cost T a + move_cost T (length xs)) (throw_budget s)"
      using nf by (rule affordable_no_faults)
    from Emplace_exec [OF c i pr f aa at2] obtain s' where
      r: "Emplace T this i a s = (Inr i, s')"
      and c': "contains s' this (take i xs @ x # drop i xs)"
      by blast
    from r c' em [OF r]
    show "\<exists>s'. Emplace T this i a s = (Inr i, s') \<and>
              contains s' this (take i xs @ x # drop i xs) \<and>
              Capacity s' this = max 1 (2 * Capacity s this)" by blast
  qed
  have sq: "\<exists>s'. push_all T this ys s = (Inr (), s') \<and> contains s' this ys \<and>
           Capacity s' this = capacities (length ys) \<and>
           (ys \<noteq> [] \<longrightarrow>
              (\<exists>k. Capacity s' this = 2 ^ k \<and> length ys \<le> 2 ^ k \<and>
                 2 ^ k < 2 * length ys))"
    if e: "xs = []" and c0: "Capacity s this = 0" and nf: "no_faults s"
      and fy: "fits s (max 1 (2 * length ys))"
  proof -
    from c e have ce: "contains s this []" by simp
    have f2: "fits s (2 * length ys)" by (rule fits_mono [OF fy]) simp
    have "fits s 1" by (rule fits_mono [OF fy]) simp
    then have sb: "0 < slot_bytes s \<and> slot_bytes s < 2 ^ 64" by (simp add: fits_def)
    from push_all_exec [OF ce c0 nf f2 sb, of T] obtain s' where
      r: "push_all T this ys s = (Inr (), s')" and c': "contains s' this ys"
      and cp: "Capacity s' this = capacities (length ys)"
      by blast
    have "\<exists>k. Capacity s' this = 2 ^ k \<and> length ys \<le> 2 ^ k \<and> 2 ^ k < 2 * length ys"
      if "ys \<noteq> []"
      using capacities_pow2 [of "length ys"] that cp by simp
    with r c' cp show ?thesis by blast
  qed
  have 1: "\<forall>r s'. EmplaceBack T this a s = (Inr r, s') \<longrightarrow>
        Capacity s' this = max 1 (2 * Capacity s this)"
    by (intro allI impI) (rule eb)
  have 2: "\<forall>s'. PushBack T this a s = (Inr (), s') \<longrightarrow>
        Capacity s' this = max 1 (2 * Capacity s this)"
    by (intro allI impI) (rule pb)
  have 3: "\<forall>r s'. Emplace T this i a s = (Inr r, s') \<longrightarrow>
        Capacity s' this = max 1 (2 * Capacity s this)"
    by (intro allI impI) (rule em)
  have 4: "provides xs a x \<and> no_faults s \<longrightarrow>
        (\<exists>s'. PushBack T this a s = (Inr (), s') \<and> contains s' this (xs @ [x]) \<and>
           Capacity s' this = max 1 (2 * Capacity s this)) \<and>
        (i \<le> length xs \<longrightarrow>
           (\<exists>s'. Emplace T this i a s = (Inr i, s') \<and>
              contains s' this (take i xs @ x # drop i xs) \<and>
              Capacity s' this = max 1 (2 * Capacity s this)))"
    by (intro impI, elim conjE, rule tot)
  have 5: "xs = [] \<and> Capacity s this = 0 \<and> no_faults s \<and> fits s (max 1 (2 * length ys)) \<longrightarrow>
        (\<exists>s'. push_all T this ys s = (Inr (), s') \<and> contains s' this ys \<and>
           Capacity s' this = capacities (length ys) \<and>
           (ys \<noteq> [] \<longrightarrow>
              (\<exists>k. Capacity s' this = 2 ^ k \<and> length ys \<le> 2 ^ k \<and>
                 2 ^ k < 2 * length ys)))"
    by (intro impI, elim conjE, rule sq)
  from 1 2 3 4 5 show ?thesis by (intro conjI)
qed

text \<open>
  The theorem at work: a \<^verbatim>\<open>PushBack\<close> on the full vector \<open>[10, 20, 30, 40]\<close> of capacity
  4 leads to the capacity 8, and appending one, two, three and five values to an empty
  vector leads to the capacities 1, 2, 4 and 8.
\<close>

theorem growth_spec_witness:
  "contains (vector_with [10, 20, 30, 40] 0) 1 [10, 20, 30, 40] \<and>
   Size (vector_with [10, 20, 30, 40] 0) 1 = Capacity (vector_with [10, 20, 30, 40] 0) 1 \<and>
   fits (vector_with [10, 20, 30, 40] 0) 8 \<and> no_faults (vector_with [10, 20, 30, 40] 0) \<and>
   (\<exists>s'. PushBack int_traits 1 (Copy (External 50)) (vector_with [10, 20, 30, 40] 0)
            = (Inr (), s') \<and>
      contains s' 1 [10, 20, 30, 40, 50] \<and> Capacity s' 1 = 8) \<and>
   contains empty_machine 1 [] \<and> Capacity empty_machine 1 = 0 \<and> no_faults empty_machine \<and>
   fits empty_machine 10 \<and>
   (\<exists>s'. push_all int_traits 1 [1] empty_machine = (Inr (), s') \<and> Capacity s' 1 = 1) \<and>
   (\<exists>s'. push_all int_traits 1 [1, 2] empty_machine = (Inr (), s') \<and> Capacity s' 1 = 2) \<and>
   (\<exists>s'. push_all int_traits 1 [1, 2, 3] empty_machine = (Inr (), s') \<and> Capacity s' 1 = 4) \<and>
   (\<exists>s'. push_all int_traits 1 [1, 2, 3, 4, 5] empty_machine = (Inr (), s') \<and>
      contains s' 1 [1, 2, 3, 4, 5] \<and> Capacity s' 1 = 8)"
proof -
  let ?a = "vector_with [10, 20, 30, 40] 0"
  have c: "contains ?a 1 [10, 20, 30, 40]" by (rule vector_with_contains) simp
  have fl: "Size ?a 1 = Capacity ?a 1" by (simp add: vector_with_fields)
  have f: "fits ?a 8" by (rule fits_small) (simp_all add: vector_with_fields)
  have f': "fits ?a (max 1 (2 * Capacity ?a 1))" using f by (simp add: vector_with_fields)
  have nf: "no_faults ?a" by (simp add: no_faults_def vector_with_fields)
  have pr: "provides [10, 20, 30, 40] (Copy (External 50)) (50 :: nat)"
    by (simp add: provides_def)
  have m: "max 1 (2 * Capacity ?a 1) = 8" by (simp add: vector_with_fields)
  from growth_spec [OF c fl f', where a = "Copy (External 50)" and x = 50 and T = int_traits]
    pr nf
  have r0: "\<exists>s'. PushBack int_traits 1 (Copy (External 50)) ?a = (Inr (), s') \<and>
      contains s' 1 [10, 20, 30, 40, 50] \<and> Capacity s' 1 = 8"
    unfolding m by simp
  have ce: "contains empty_machine 1 []"
    by (simp add: contains_def empty_machine_def Vector_default_def RawMemory_default_def)
  have e0: "Capacity empty_machine 1 = 0" "Size empty_machine 1 = Capacity empty_machine 1"
    by (simp_all add: Capacity_def Size_def empty_machine_def Vector_default_def
        RawMemory_default_def)
  have nfe: "no_faults empty_machine" by (simp add: no_faults_def empty_machine_def)
  have fe: "fits empty_machine n" if "n \<le> 10" for n
    using that by (simp add: fits_def empty_machine_def)
  have fe0: "fits empty_machine (max 1 (2 * Capacity empty_machine 1))"
    unfolding e0 by (rule fe) simp
  have cs: "capacities (length [1 :: nat]) = 1" "capacities (length [1, 2 :: nat]) = 2"
    "capacities (length [1, 2, 3 :: nat]) = 4" "capacities (length [1, 2, 3, 4, 5 :: nat]) = 8"
    by simp_all
  have pre: "([] :: nat list) = [] \<and> Capacity empty_machine 1 = 0 \<and> no_faults empty_machine \<and>
      fits empty_machine (max 1 (2 * length ys))" if "length ys \<le> 5" for ys :: "nat list"
    using e0 nfe fe [of "max 1 (2 * length ys)"] that by simp
  note g = growth_spec [OF ce e0(2) fe0, where T = int_traits, THEN conjunct2, THEN conjunct2,
      THEN conjunct2, THEN conjunct2, THEN mp, OF pre]
  from g [of "[1]"] have r1: "\<exists>s'. push_all int_traits 1 [1] empty_machine = (Inr (), s') \<and>
      Capacity s' 1 = 1"
    unfolding cs by auto
  from g [of "[1, 2]"] have r2: "\<exists>s'. push_all int_traits 1 [1, 2] empty_machine = (Inr (), s') \<and>
      Capacity s' 1 = 2"
    unfolding cs by auto
  from g [of "[1, 2, 3]"]
  have r3: "\<exists>s'. push_all int_traits 1 [1, 2, 3] empty_machine = (Inr (), s') \<and>
      Capacity s' 1 = 4"
    unfolding cs by auto
  from g [of "[1, 2, 3, 4, 5]"]
  have r5: "\<exists>s'. push_all int_traits 1 [1, 2, 3, 4, 5] empty_machine = (Inr (), s') \<and>
      contains s' 1 [1, 2, 3, 4, 5] \<and> Capacity s' 1 = 8"
    unfolding cs by auto
  from c fl f nf r0 ce e0(1) nfe fe [of 10] r1 r2 r3 r5 show ?thesis
    by (intro conjI) simp_all
qed

section \<open>Insertion and removal\<close>

lemma std_move_backward_numeral:
  "std_move_backward T sp si (numeral k) dp dend s =
     (if dend = 0 then (Inl Violation, s)
      else case move_assign T sp (si + pred_numeral k) dp (dend - 1) s of
        (Inl e, s1) \<Rightarrow> (Inl e, s1)
      | (Inr _, s1) \<Rightarrow> std_move_backward T sp si (pred_numeral k) dp (dend - 1) s1)"
  by (simp add: numeral_eq_Suc)

text \<open>
  C5 as stated fails for \<^verbatim>\<open>Insert(pos, std::move(v[k]))\<close>, where the value to insert is
  an rvalue reference to an element of the vector itself: the move constructor that
  builds the new element leaves that element moved-from, so the old elements are not
  all kept. For an element type whose moved-from objects have the value \<open>0\<close>, the
  vector \<open>[10, 20, 30, 40]\<close> of capacity 6 and \<^verbatim>\<open>Insert(begin(), std::move(v[2]))\<close>, the
  result is \<open>[30, 10, 20, 0, 40]\<close> and not \<open>[30, 10, 20, 30, 40]\<close>.
\<close>

theorem Insert_rvalue_element:
  "contains (vector_with [10, 20, 30, 40] 2) 1 [10, 20, 30, 40] \<and>
   no_faults (vector_with [10, 20, 30, 40] 2) \<and>
   fst (Insert_move copyable 1 0 (Element 2) (vector_with [10, 20, 30, 40] 2)) = Inr 0 \<and>
   elems (snd (Insert_move copyable 1 0 (Element 2) (vector_with [10, 20, 30, 40] 2))) 1
     = [30, 10, 20, 0, 40] \<and>
   take 0 [10, 20, 30, 40] @ [10, 20, 30, 40] ! 2 # drop 0 [10, 20, 30, 40]
     = [30, 10, 20, 30, 40 :: nat]"
proof -
  have "fst (Insert_move copyable 1 0 (Element 2) (vector_with [10, 20, 30, 40] 2)) = Inr 0 \<and>
    elems (snd (Insert_move copyable 1 0 (Element 2) (vector_with [10, 20, 30, 40] 2))) 1
      = [30, 10, 20, 0, 40]"
    apply (simp add: Insert_move_def Emplace_def EmplaceShift_def Let_def vector_with_def
        empty_machine_def Capacity_def copyable_def make_temp_def live_at_def block_at_def
        bind_def may_throw_def put_slot_def set_block_def ret_def RawMemory_plus_def
        RawMemory_index_def assert_that_def minus_one_def move_construct_def move_assign_def
        move_assign_value_def set_vec_def std_move_backward_numeral elems_def)
    apply (simp add: numeral_2_eq_2)
    done
  moreover have "contains (vector_with [10, 20, 30, 40] 2) 1 [10, 20, 30, 40]"
    by (rule vector_with_contains) simp
  moreover have "no_faults (vector_with [10, 20, 30, 40] 2)"
    by (simp add: no_faults_def vector_with_fields)
  moreover have "take 0 [10, 20, 30, 40] @ [10, 20, 30, 40] ! 2 # drop 0 [10, 20, 30, 40]
     = [30, 10, 20, 30, 40 :: nat]" by simp
  ultimately show ?thesis by blast
qed

text \<open>
  C5, amended. Let the vector hold \<open>xs\<close>, and let nothing throw. \<^verbatim>\<open>Emplace\<close> at a position
  \<open>i \<le> length xs\<close>, with constructor arguments that yield the value \<open>x\<close> and do not
  modify an element of the vector, returns the position \<open>i\<close>, and the vector then holds
  \<open>take i xs @ x # drop i xs\<close>: the elements before \<open>i\<close> as they were, \<open>x\<close> at \<open>i\<close>, and
  the old elements from \<open>i\<close> on one slot to the right. (When the vector is full, the
  doubled count of objects has to fit into \<^verbatim>\<open>size_t\<close> bytes.) So do both overloads of
  \<^verbatim>\<open>Insert\<close> for an object of value \<open>x\<close> outside the vector, and \<^verbatim>\<open>Insert(pos, v[k])\<close> for
  an element of the vector itself, which inserts the value \<open>xs ! k\<close> that the element
  had before the call. \<^verbatim>\<open>Erase\<close> at a position \<open>j < length xs\<close> returns the position \<open>j\<close>,
  and the vector then holds \<open>take j xs @ drop (Suc j) xs\<close>: the element \<open>j\<close> is removed,
  the elements behind it are one slot to the left, and position \<open>j\<close> holds the element
  that followed the removed one.
\<close>

theorem Insert_Erase_spec:
  assumes c: "contains s this xs" and nf: "no_faults s"
  shows
    "(i \<le> length xs \<and>
      (length xs < Capacity s this \<or> fits s (if length xs = 0 then 1 else length xs * 2)) \<longrightarrow>
        (provides xs a x \<longrightarrow>
           (\<exists>s'. Emplace T this i a s = (Inr i, s') \<and>
              contains s' this (take i xs @ x # drop i xs))) \<and>
        (\<exists>s'. Insert T this i (External x) s = (Inr i, s') \<and>
           contains s' this (take i xs @ x # drop i xs)) \<and>
        (\<exists>s'. Insert_move T this i (External x) s = (Inr i, s') \<and>
           contains s' this (take i xs @ x # drop i xs)) \<and>
        (k < length xs \<longrightarrow>
           (\<exists>s'. Insert T this i (Element k) s = (Inr i, s') \<and>
              contains s' this (take i xs @ xs ! k # drop i xs)))) \<and>
     (j < length xs \<longrightarrow>
        (\<exists>s'. Erase T this j s = (Inr j, s') \<and>
           contains s' this (take j xs @ drop (Suc j) xs) \<and>
           Size s' this = length xs - 1 \<and>
           (Suc j < length xs \<longrightarrow> elems s' this ! j = xs ! Suc j)))"
proof -
  have em: "\<exists>s'. Emplace T this i a s = (Inr i, s') \<and>
              contains s' this (take i xs @ x # drop i xs)"
    if i: "i \<le> length xs"
      and ft: "length xs < Capacity s this \<or>
               fits s (if length xs = 0 then 1 else length xs * 2)"
      and pr: "provides xs a x" for a x
  proof -
    have aa: "length xs < Capacity s this \<or> affordable 1 (alloc_budget s)"
      using nf by simp
    have at: "affordable
       (if length xs < Capacity s this
        then (if i = length xs then arg_cost T a else shift_cost T a (length xs - Suc i))
        else arg_cost T a + move_cost T (length xs)) (throw_budget s)"
      using nf by (rule affordable_no_faults)
    from Emplace_exec [OF c i pr ft aa at] show ?thesis by blast
  qed
  have p1: "provides xs (Copy (External x)) x" "provides xs (Move (External x)) x"
    by (simp_all add: provides_def)
  have p2: "provides xs (Copy (Element k)) (xs ! k)" if "k < length xs"
    using that by (simp add: provides_def)
  have er: "\<exists>s'. Erase T this j s = (Inr j, s') \<and>
           contains s' this (take j xs @ drop (Suc j) xs) \<and>
           Size s' this = length xs - 1 \<and>
           (Suc j < length xs \<longrightarrow> elems s' this ! j = xs ! Suc j)"
    if j: "j < length xs"
  proof -
    have at: "affordable (assign_cost T (length xs - Suc j)) (throw_budget s)"
      using nf by (rule affordable_no_faults)
    from Erase_exec [OF c j at] obtain s' where
      r: "Erase T this j s = (Inr j, s')"
      and c': "contains s' this (take j xs @ drop (Suc j) xs)" by blast
    have e: "elems s' this = take j xs @ drop (Suc j) xs" by (rule contains_elems [OF c'])
    have sz: "Size s' this = length xs - 1"
      using containsD(1) [OF c'] j by (simp add: Size_def)
    have "elems s' this ! j = xs ! Suc j" if "Suc j < length xs"
      using that j by (simp add: e nth_append)
    with r c' sz show ?thesis by blast
  qed
  show ?thesis
    using em [OF _ _ p1(1)] em [OF _ _ p1(2)] em [OF _ _ p2] em er
    by (simp add: Insert_def Insert_move_def)
qed

text \<open>
  The theorem at work on the examples of the specification. \<^verbatim>\<open>Insert\<close> of 99 at
  position 2 into \<open>[10, 20, 30, 40]\<close> yields \<open>[10, 20, 99, 30, 40]\<close>, both when the
  vector is full (capacity 4, the elements move into a new block) and when it has room
  (capacity 6, the elements behind the position are shifted in place); \<^verbatim>\<open>Erase\<close> at
  position 1 of \<open>[10, 20, 99, 30, 40]\<close> yields \<open>[10, 99, 30, 40]\<close> and returns position 1,
  which then holds 99.
\<close>

theorem Insert_Erase_spec_witness:
  "contains (vector_with [10, 20, 30, 40] 0) 1 [10, 20, 30, 40] \<and>
   no_faults (vector_with [10, 20, 30, 40] 0) \<and>
   fits (vector_with [10, 20, 30, 40] 0) 8 \<and>
   (\<exists>s'. Insert int_traits 1 2 (External 99) (vector_with [10, 20, 30, 40] 0) = (Inr 2, s') \<and>
      contains s' 1 [10, 20, 99, 30, 40]) \<and>
   contains (vector_with [10, 20, 30, 40] 2) 1 [10, 20, 30, 40] \<and>
   no_faults (vector_with [10, 20, 30, 40] 2) \<and>
   (\<exists>s'. Insert int_traits 1 2 (External 99) (vector_with [10, 20, 30, 40] 2) = (Inr 2, s') \<and>
      contains s' 1 [10, 20, 99, 30, 40]) \<and>
   (\<exists>s'. Insert int_traits 1 0 (Element 3) (vector_with [10, 20, 30, 40] 2) = (Inr 0, s') \<and>
      contains s' 1 [40, 10, 20, 30, 40]) \<and>
   contains (vector_with [10, 20, 99, 30, 40] 3) 1 [10, 20, 99, 30, 40] \<and>
   no_faults (vector_with [10, 20, 99, 30, 40] 3) \<and>
   (\<exists>s'. Erase int_traits 1 1 (vector_with [10, 20, 99, 30, 40] 3) = (Inr 1, s') \<and>
      contains s' 1 [10, 99, 30, 40] \<and> Size s' 1 = 4 \<and> elems s' 1 ! 1 = 99)"
proof -
  let ?a = "vector_with [10, 20, 30, 40] 0"
  let ?b = "vector_with [10, 20, 30, 40] 2"
  let ?e = "vector_with [10, 20, 99, 30, 40] 3"
  have c: "contains ?a 1 [10, 20, 30, 40]" "contains ?b 1 [10, 20, 30, 40]"
    "contains ?e 1 [10, 20, 99, 30, 40]"
    by (rule vector_with_contains, simp)+
  have nf: "no_faults ?a" "no_faults ?b" "no_faults ?e"
    by (simp_all add: no_faults_def vector_with_fields)
  have f: "fits ?a 8" by (rule fits_small) (simp_all add: vector_with_fields)
  have pa: "(2 :: nat) \<le> length [10, 20, 30, 40 :: nat] \<and>
      (length [10, 20, 30, 40 :: nat] < Capacity ?a 1 \<or>
       fits ?a (if length [10, 20, 30, 40 :: nat] = 0 then 1
                else length [10, 20, 30, 40 :: nat] * 2))"
    using f by simp
  have pb: "(i :: nat) \<le> 4 \<Longrightarrow> i \<le> length [10, 20, 30, 40 :: nat] \<and>
      (length [10, 20, 30, 40 :: nat] < Capacity ?b 1 \<or>
       fits ?b (if length [10, 20, 30, 40 :: nat] = 0 then 1
                else length [10, 20, 30, 40 :: nat] * 2))" for i
    by (simp add: vector_with_fields)
  have l: "take 2 [10, 20, 30, 40 :: nat] @ 99 # drop 2 [10, 20, 30, 40] = [10, 20, 99, 30, 40]"
    "take 0 [10, 20, 30, 40 :: nat] @ [10, 20, 30, 40] ! 3 # drop 0 [10, 20, 30, 40]
       = [40, 10, 20, 30, 40]"
    "take 1 [10, 20, 99, 30, 40 :: nat] @ drop (Suc 1) [10, 20, 99, 30, 40] = [10, 99, 30, 40]"
    "[10, 20, 99, 30, 40 :: nat] ! Suc 1 = 99" "length [10, 20, 99, 30, 40 :: nat] - 1 = 4"
    by (simp_all add: numeral_eq_Suc)
  from Insert_Erase_spec [OF c(1) nf(1), where i = 2 and T = int_traits and x = 99,
      THEN conjunct1, THEN mp, OF pa]
  have r1: "\<exists>s'. Insert int_traits 1 2 (External 99) ?a = (Inr 2, s') \<and>
      contains s' 1 [10, 20, 99, 30, 40]"
    unfolding l by blast
  from Insert_Erase_spec [OF c(2) nf(2), where i = 2 and T = int_traits and x = 99,
      THEN conjunct1, THEN mp, OF pb]
  have r2: "\<exists>s'. Insert int_traits 1 2 (External 99) ?b = (Inr 2, s') \<and>
      contains s' 1 [10, 20, 99, 30, 40]"
    unfolding l by simp
  from Insert_Erase_spec [OF c(2) nf(2), where i = 0 and T = int_traits and k = 3,
      THEN conjunct1, THEN mp, OF pb]
  have r3: "\<exists>s'. Insert int_traits 1 0 (Element 3) ?b = (Inr 0, s') \<and>
      contains s' 1 [40, 10, 20, 30, 40]"
    unfolding l by simp
  from Insert_Erase_spec [OF c(3) nf(3), where j = 1 and T = int_traits, THEN conjunct2]
  have r4: "\<exists>s'. Erase int_traits 1 1 ?e = (Inr 1, s') \<and>
      contains s' 1 [10, 99, 30, 40] \<and> Size s' 1 = 4 \<and> elems s' 1 ! 1 = 99"
    unfolding l by simp
  from c nf f r1 r2 r3 r4 show ?thesis by (intro conjI)
qed

section \<open>Copy construction\<close>

lemma contains_cong:
  assumes "vecs s' this = vecs s this"
    and "block_at s' (raw_buffer (vec_data (vecs s this)))
         = block_at s (raw_buffer (vec_data (vecs s this)))"
  shows "contains s' this xs = contains s this xs"
  using assms by (simp add: contains_def Let_def)

text \<open>
  C6. Let the vector \<open>a\<close> hold \<open>xs\<close>, and let \<^verbatim>\<open>Vector b(a)\<close> construct a new object \<open>b\<close>.
  When \<open>length xs\<close> objects fit into \<^verbatim>\<open>size_t\<close> bytes (as they do in the block of \<open>a\<close>)
  and neither the allocation nor a copy constructor throws, the constructor returns
  normally; then \<open>b\<close> holds \<open>xs\<close>, its count is the count of \<open>a\<close>, its capacity is exactly
  its count, \<open>a\<close> still holds \<open>xs\<close> with its fields unchanged, the two vectors do not
  share a block, no other vector and no block that existed before has changed, and the
  copy constructor of \<open>T\<close> has been called once for each element.
\<close>

theorem copy_construct_spec:
  assumes c: "contains s a xs" and ab: "b \<noteq> a"
    and ft: "fits s (length xs)"
    and aa: "xs = [] \<or> affordable 1 (alloc_budget s)"
    and at: "affordable (length xs) (throw_budget s)"
  shows "\<exists>s'. Vector_copy_ctor b a s = (Inr (), s') \<and>
           contains s' b xs \<and> Size s' b = Size s a \<and> Capacity s' b = Size s' b \<and>
           contains s' a xs \<and> vecs s' a = vecs s a \<and> separate s' a b \<and>
           (\<forall>q. q \<noteq> b \<longrightarrow> vecs s' q = vecs s q) \<and>
           (\<forall>p. p \<le> length (heap s) \<longrightarrow> block_at s' p = block_at s p) \<and>
           copy_calls s' = copy_calls s + length xs"
proof (cases "xs = []")
  case True
  define s' where "s' = s\<lparr>vecs := (vecs s)
      (b := \<lparr>vec_data = \<lparr>raw_buffer = 0, raw_capacity = 0\<rparr>, vec_size = 0\<rparr>)\<rparr>"
  from c True have c0: "contains s a []" by simp
  have run: "Vector_copy_ctor b a s = (Inr (), s')"
    by (simp add: Vector_copy_ctor_def bind_def Vector_copy_empty [OF c0] set_vec_def s'_def)
  have va: "vecs s' a = vecs s a" using ab by (simp add: s'_def)
  have bl: "block_at s' = block_at s" by (simp add: s'_def fun_eq_iff block_at_def)
  have cb: "contains s' b xs" using True by (simp add: contains_def s'_def)
  have ca: "contains s' a xs" using c contains_cong [OF va, of xs] bl by simp
  have "Size s' b = Size s a" "Capacity s' b = Size s' b"
    using containsD(1) [OF c] True by (simp_all add: Size_def Capacity_def s'_def)
  moreover have "separate s' a b" by (auto simp: separate_def s'_def)
  moreover have "\<forall>q. q \<noteq> b \<longrightarrow> vecs s' q = vecs s q" by (simp add: s'_def)
  moreover have "copy_calls s' = copy_calls s + length xs" using True by (simp add: s'_def)
  ultimately show ?thesis using run cb ca va bl by auto
next
  case False
  let ?np = "Suc (length (heap s))"
  let ?v' = "\<lparr>vec_data = \<lparr>raw_buffer = ?np, raw_capacity = length xs\<rparr>, vec_size = length xs\<rparr>"
  define s2 where "s2 = s\<lparr>heap := heap s @ [Some (map Some xs)],
              alloc_budget := spend 1 (alloc_budget s),
              throw_budget := spend (length xs) (throw_budget s),
              copy_calls := copy_calls s + length xs\<rparr>"
  define s' where "s' = s2\<lparr>vecs := (vecs s)(b := ?v')\<rparr>"
  from aa False have aa': "affordable 1 (alloc_budget s)" by simp
  have cp: "Vector_copy (vecs s a) s = (Inr ?v', s2)"
    unfolding s2_def by (rule Vector_copy_exec [OF c False ft aa' at])
  have run: "Vector_copy_ctor b a s = (Inr (), s')"
    by (simp add: Vector_copy_ctor_def bind_def cp set_vec_def s'_def s2_def)
  have va: "vecs s' a = vecs s a" using ab by (simp add: s'_def)
  have bl: "block_at s' p = (if p = ?np then Some (map Some xs) else block_at s p)" for p
    using block_at_append [of s "Some (map Some xs)" p]
    by (simp add: s'_def s2_def block_at_def)
  have pnp: "raw_buffer (vec_data (vecs s a)) \<noteq> ?np" by (rule contains_buffer_old [OF c])
  have cb: "contains s' b xs"
    using bl [of ?np] False by (simp add: contains_def s'_def)
  have ca: "contains s' a xs"
    using c contains_cong [OF va, of xs] bl [of "raw_buffer (vec_data (vecs s a))"] pnp by simp
  have "Size s' b = Size s a" "Capacity s' b = Size s' b"
    using containsD(1) [OF c] by (simp_all add: Size_def Capacity_def s'_def)
  moreover have "separate s' a b" using pnp ab by (simp add: separate_def s'_def)
  moreover have "\<forall>q. q \<noteq> b \<longrightarrow> vecs s' q = vecs s q" by (simp add: s'_def)
  moreover have "\<forall>p. p \<le> length (heap s) \<longrightarrow> block_at s' p = block_at s p"
    by (simp add: bl)
  moreover have "copy_calls s' = copy_calls s + length xs" by (simp add: s'_def s2_def)
  ultimately show ?thesis using run cb ca va by blast
qed

text \<open>
  The theorem at work: vector 3 is copy-constructed from vector 1, which holds
  \<open>[10, 20]\<close> in a block of capacity 2.
\<close>

theorem copy_construct_spec_witness:
  "contains two_vectors 1 [10, 20] \<and> (3 :: nat) \<noteq> 1 \<and> fits two_vectors 2 \<and>
   affordable 1 (alloc_budget two_vectors) \<and> affordable 2 (throw_budget two_vectors) \<and>
   (\<exists>s'. Vector_copy_ctor 3 1 two_vectors = (Inr (), s') \<and>
      contains s' 3 [10, 20] \<and> Size s' 3 = 2 \<and> Capacity s' 3 = 2 \<and>
      contains s' 1 [10, 20] \<and> vecs s' 1 = vecs two_vectors 1 \<and> separate s' 1 3)"
proof -
  have c: "contains two_vectors 1 [10, 20]"
    by (simp add: contains_def two_vectors_def empty_machine_def block_at_def)
  have d: "(3 :: nat) \<noteq> 1" by simp
  have f: "fits two_vectors (length [10, 20 :: nat])" "fits two_vectors 2"
    by (simp_all add: fits_def two_vectors_def empty_machine_def)
  have b: "affordable 1 (alloc_budget two_vectors)" "affordable 2 (throw_budget two_vectors)"
    by (simp_all add: two_vectors_def empty_machine_def)
  have b': "[10, 20 :: nat] = [] \<or> affordable 1 (alloc_budget two_vectors)"
    "affordable (length [10, 20 :: nat]) (throw_budget two_vectors)"
    by (simp_all add: two_vectors_def empty_machine_def)
  have sz: "Size two_vectors 1 = 2"
    by (simp add: Size_def two_vectors_def empty_machine_def)
  from copy_construct_spec [OF c d f(1) b']
  have "\<exists>s'. Vector_copy_ctor 3 1 two_vectors = (Inr (), s') \<and>
      contains s' 3 [10, 20] \<and> Size s' 3 = 2 \<and> Capacity s' 3 = 2 \<and>
      contains s' 1 [10, 20] \<and> vecs s' 1 = vecs two_vectors 1 \<and> separate s' 1 3"
    unfolding sz by metis
  with c d f(2) b show ?thesis by (intro conjI)
qed

section \<open>Resize\<close>




section \<open>Reserve\<close>




section \<open>Operations that never reallocate\<close>

text \<open>
  C10. Whatever the outcome of \<^verbatim>\<open>PopBack\<close>, of \<^verbatim>\<open>Erase\<close> and of a \<^verbatim>\<open>Resize\<close> to at most
  the count (normal return, an exception of a move assignment, a failed assertion),
  the vector has kept its buffer and its capacity, \<^verbatim>\<open>operator new\<close> was not called,
  and no block was allocated or released. On a vector that holds \<open>xs\<close> the three
  operations do return normally (\<^verbatim>\<open>PopBack\<close> on a non-empty vector, \<^verbatim>\<open>Erase\<close> at a
  position below the count when no move assignment throws), and then only the count
  and the live elements have changed: the vector holds \<open>xs\<close> without its last element,
  without its element \<open>i\<close>, or cut to its first \<open>n\<close> elements, in the same buffer of the
  same capacity.
\<close>

theorem shrinking_keeps_capacity:
  "keeps_buffer this s (snd (PopBack this s)) \<and>
   keeps_buffer this s (snd (Erase T this i s)) \<and>
   (n \<le> Size s this \<longrightarrow> keeps_buffer this s (snd (Resize T this n s))) \<and>
   (contains s this xs \<longrightarrow>
      (xs \<noteq> [] \<longrightarrow>
         (\<exists>s'. PopBack this s = (Inr (), s') \<and> contains s' this (butlast xs) \<and>
            Capacity s' this = Capacity s this)) \<and>
      (i < length xs \<and> affordable (assign_cost T (length xs - Suc i)) (throw_budget s) \<longrightarrow>
         (\<exists>s'. Erase T this i s = (Inr i, s') \<and>
            contains s' this (take i xs @ drop (Suc i) xs) \<and>
            Capacity s' this = Capacity s this)) \<and>
      (n \<le> length xs \<longrightarrow>
         (\<exists>s'. Resize T this n s = (Inr (), s') \<and> contains s' this (take n xs) \<and>
            Capacity s' this = Capacity s this)))"
proof (intro conjI impI)
  show "keeps_buffer this s (snd (PopBack this s))"
    by (rule PopBack_keeps [of this s "fst (PopBack this s)"]) simp
next
  show "keeps_buffer this s (snd (Erase T this i s))"
    by (rule Erase_keeps [of T this i s "fst (Erase T this i s)"]) simp
next
  assume "n \<le> Size s this"
  then have "n \<le> vec_size (vecs s this)" by (simp add: Size_def)
  then show "keeps_buffer this s (snd (Resize T this n s))"
    by (rule Resize_shrink_keeps [of T this n s "fst (Resize T this n s)", rotated]) simp
next
  assume c: "contains s this xs" and ne: "xs \<noteq> []"
  from PopBack_contains [OF c ne] obtain s' where
    r: "PopBack this s = (Inr (), s')" and c': "contains s' this (butlast xs)" by blast
  from PopBack_keeps [OF r] have "Capacity s' this = Capacity s this"
    by (simp add: keeps_buffer_def Capacity_def)
  with r c' show "\<exists>s'. PopBack this s = (Inr (), s') \<and> contains s' this (butlast xs) \<and>
            Capacity s' this = Capacity s this" by blast
next
  assume c: "contains s this xs"
    and a: "i < length xs \<and> affordable (assign_cost T (length xs - Suc i)) (throw_budget s)"
  from Erase_exec [OF c conjunct1 [OF a] conjunct2 [OF a]] obtain s' where
    r: "Erase T this i s = (Inr i, s')"
    and c': "contains s' this (take i xs @ drop (Suc i) xs)" by blast
  from Erase_keeps [OF r] have "Capacity s' this = Capacity s this"
    by (simp add: keeps_buffer_def Capacity_def)
  with r c' show "\<exists>s'. Erase T this i s = (Inr i, s') \<and>
            contains s' this (take i xs @ drop (Suc i) xs) \<and>
            Capacity s' this = Capacity s this" by blast
next
  assume c: "contains s this xs" and n: "n \<le> length xs"
  from Resize_shrink_contains [OF c n, of T] obtain s' where
    r: "Resize T this n s = (Inr (), s')" and c': "contains s' this (take n xs)" by blast
  from n containsD(1) [OF c] have "n \<le> vec_size (vecs s this)" by simp
  from Resize_shrink_keeps [OF r this] have "Capacity s' this = Capacity s this"
    by (simp add: keeps_buffer_def Capacity_def)
  with r c' show "\<exists>s'. Resize T this n s = (Inr (), s') \<and> contains s' this (take n xs) \<and>
            Capacity s' this = Capacity s this" by blast
qed

text \<open>
  The theorem at work on the vector \<open>[1, 2, 3, 4]\<close> of capacity 6: \<^verbatim>\<open>PopBack\<close>, \<^verbatim>\<open>Erase\<close>
  at position 1 and \<^verbatim>\<open>Resize(2)\<close> leave \<open>[1, 2, 3]\<close>, \<open>[1, 3, 4]\<close> and \<open>[1, 2]\<close>, each
  with the capacity 6 in the same buffer.
\<close>

theorem shrinking_keeps_capacity_witness:
  "contains (vector_with [1, 2, 3, 4] 2) 1 [1, 2, 3, 4] \<and>
   Capacity (vector_with [1, 2, 3, 4] 2) 1 = 6 \<and>
   (\<exists>s'. PopBack 1 (vector_with [1, 2, 3, 4] 2) = (Inr (), s') \<and>
      contains s' 1 [1, 2, 3] \<and> Capacity s' 1 = 6 \<and>
      keeps_buffer 1 (vector_with [1, 2, 3, 4] 2) s') \<and>
   (\<exists>s'. Erase int_traits 1 1 (vector_with [1, 2, 3, 4] 2) = (Inr 1, s') \<and>
      contains s' 1 [1, 3, 4] \<and> Capacity s' 1 = 6 \<and>
      keeps_buffer 1 (vector_with [1, 2, 3, 4] 2) s') \<and>
   (\<exists>s'. Resize int_traits 1 2 (vector_with [1, 2, 3, 4] 2) = (Inr (), s') \<and>
      contains s' 1 [1, 2] \<and> Capacity s' 1 = 6 \<and>
      keeps_buffer 1 (vector_with [1, 2, 3, 4] 2) s')"
proof -
  let ?s = "vector_with [1, 2, 3, 4] 2"
  have c: "contains ?s 1 [1, 2, 3, 4]" by (rule vector_with_contains) simp
  have cap: "Capacity ?s 1 = 6" by (simp add: vector_with_fields)
  have sz: "2 \<le> Size ?s 1" by (simp add: vector_with_fields)
  have a: "(1 :: nat) < length [1, 2, 3, 4 :: nat] \<and>
      affordable (assign_cost int_traits (length [1, 2, 3, 4 :: nat] - Suc 1)) (throw_budget ?s)"
    by (simp add: vector_with_fields)
  have l: "butlast [1, 2, 3, 4 :: nat] = [1, 2, 3]"
    "take 1 [1, 2, 3, 4 :: nat] @ drop (Suc 1) [1, 2, 3, 4] = [1, 3, 4]"
    "take 2 [1, 2, 3, 4 :: nat] = [1, 2]"
    by (simp_all add: numeral_eq_Suc)
  note t = shrinking_keeps_capacity [of 1 ?s int_traits 1 2 "[1, 2, 3, 4]", unfolded l cap]
  from t have k1: "keeps_buffer 1 ?s (snd (PopBack 1 ?s))"
    and k2: "keeps_buffer 1 ?s (snd (Erase int_traits 1 1 ?s))" by blast+
  from t sz have k3: "keeps_buffer 1 ?s (snd (Resize int_traits 1 2 ?s))" by blast
  from t c have "\<exists>s'. PopBack 1 ?s = (Inr (), s') \<and> contains s' 1 [1, 2, 3] \<and> Capacity s' 1 = 6"
    by blast
  with k1 have r1: "\<exists>s'. PopBack 1 ?s = (Inr (), s') \<and>
      contains s' 1 [1, 2, 3] \<and> Capacity s' 1 = 6 \<and> keeps_buffer 1 ?s s'"
    by auto
  from t c a have "\<exists>s'. Erase int_traits 1 1 ?s = (Inr 1, s') \<and>
      contains s' 1 [1, 3, 4] \<and> Capacity s' 1 = 6"
    by blast
  with k2 have r2: "\<exists>s'. Erase int_traits 1 1 ?s = (Inr 1, s') \<and>
      contains s' 1 [1, 3, 4] \<and> Capacity s' 1 = 6 \<and> keeps_buffer 1 ?s s'"
    by auto
  from t c have "\<exists>s'. Resize int_traits 1 2 ?s = (Inr (), s') \<and>
      contains s' 1 [1, 2] \<and> Capacity s' 1 = 6"
    by simp
  with k3 have r3: "\<exists>s'. Resize int_traits 1 2 ?s = (Inr (), s') \<and>
      contains s' 1 [1, 2] \<and> Capacity s' 1 = 6 \<and> keeps_buffer 1 ?s s'"
    by auto
  from c cap r1 r2 r3 show ?thesis by (intro conjI)
qed

section \<open>Moves and self-assignment\<close>

lemma RawMemory_move_ctor_result:
  "this \<noteq> other \<Longrightarrow> RawMemory_move_ctor this other s = (Inr u, s') \<Longrightarrow>
   raws s' this = raws s other \<and> raws s' other = \<lparr>raw_buffer = 0, raw_capacity = 0\<rparr> \<and>
   heap s' = heap s"
  by (auto simp: RawMemory_move_ctor_def Let_def)

lemma RawMemory_move_assign_result:
  "this \<noteq> rhs \<Longrightarrow> RawMemory_move_assign this rhs s = (Inr u, s') \<Longrightarrow>
   raws s' this = raws s rhs \<and> raw_capacity (raws s' rhs) = 0"
  by (auto simp: RawMemory_move_assign_def RawMemory_Swap_at_def RawMemory_Swap_def
      Deallocate_def set_block_def bind_def split: if_splits option.splits)

lemma Vector_Swap_at_result:
  "Vector_Swap_at this other s = (Inr u, s') \<Longrightarrow>
   vecs s' this = vecs s other \<and> vecs s' other = vecs s this \<and> heap s' = heap s"
  by (auto simp: Vector_Swap_at_def Vector_Swap_def RawMemory_Swap_def)

lemma Vector_move_ctor_result:
  "this \<noteq> other \<Longrightarrow> Vector_move_ctor this other s = (Inr u, s') \<Longrightarrow>
   vecs s' this = vecs s other \<and> vecs s' other = Vector_default \<and> heap s' = heap s"
  by (auto simp: Vector_move_ctor_def Vector_default_ctor_def set_vec_def bind_def
      Vector_Swap_at_def Vector_Swap_def RawMemory_Swap_def Vector_default_def
      RawMemory_default_def)

lemma elems_cong:
  "vecs s' a = vecs s b \<Longrightarrow> heap s' = heap s \<Longrightarrow> elems s' a = elems s b"
  by (simp add: elems_def block_at_def cong: option.case_cong)

text \<open>
  C9. Self-assignment is the identity: copy assignment \<^verbatim>\<open>v = v\<close> and move assignment
  \<^verbatim>\<open>v = std::move(v)\<close> return normally and leave the whole machine state, and so the
  count, the capacity and the elements of \<open>v\<close>, as they were.
\<close>

theorem self_assignment_identity:
  "Vector_copy_assign this this s = (Inr (), s) \<and>
   Vector_move_assign this this s = (Inr (), s)"
  by (simp add: Vector_copy_assign_def Vector_move_assign_def)

text \<open>
  C3, as stated, at move assignment of \<^verbatim>\<open>Vector\<close>: assigning vector 1 (\<open>[10, 20]\<close>) into
  vector 2 (\<open>[30]\<close>) swaps them, so the source is left with count 1, capacity 1 and the
  element \<open>30\<close>, not empty.
\<close>

theorem move_assign_source_not_emptied:
  "Size (snd (Vector_move_assign 2 1 two_vectors)) 1 = 1 \<and>
   Capacity (snd (Vector_move_assign 2 1 two_vectors)) 1 = 1 \<and>
   elems (snd (Vector_move_assign 2 1 two_vectors)) 1 = [30] \<and>
   elems (snd (Vector_move_assign 2 1 two_vectors)) 2 = [10, 20]"
  by (simp add: Vector_move_assign_def Vector_Swap_at_def Vector_Swap_def RawMemory_Swap_def
      two_vectors_def empty_machine_def Size_def Capacity_def elems_def block_at_def)

lemma RawMemory_move_ctor_total:
  "\<exists>s'. RawMemory_move_ctor this other s = (Inr (), s')"
  by (simp add: RawMemory_move_ctor_def Let_def)

lemma Vector_move_ctor_total:
  "\<exists>s'. Vector_move_ctor this other s = (Inr (), s')"
  by (simp add: Vector_move_ctor_def Vector_default_ctor_def set_vec_def bind_def
      Vector_Swap_at_def Vector_Swap_def RawMemory_Swap_def)

lemma Vector_move_assign_total:
  "\<exists>s'. Vector_move_assign this rhs s = (Inr (), s')"
  by (simp add: Vector_move_assign_def Vector_Swap_at_def Vector_Swap_def RawMemory_Swap_def)

lemma RawMemory_move_assign_total:
  assumes "raw_buffer (raws s this) = 0 \<or> block_at s (raw_buffer (raws s this)) \<noteq> None"
  shows "\<exists>s'. RawMemory_move_assign this rhs s = (Inr (), s')"
  using assms
  by (auto simp: RawMemory_move_assign_def RawMemory_Swap_at_def RawMemory_Swap_def
      Deallocate_def bind_def)

text \<open>
  C3, amended. Every move returns normally (the moves are \<^verbatim>\<open>noexcept\<close>; for the move
  assignment of \<^verbatim>\<open>RawMemory\<close> the target's buffer must be null or an allocated block,
  as it is for every \<^verbatim>\<open>RawMemory\<close> that owns its buffer). Move construction of a
  \<^verbatim>\<open>RawMemory\<close> or a \<^verbatim>\<open>Vector\<close> from a distinct object gives the new object the fields
  of the source (so it holds exactly what the source held, in the same block) and
  leaves the source empty: null buffer, capacity \<open>0\<close>, count \<open>0\<close>. Move assignment
  between distinct \<^verbatim>\<open>Vector\<close>s exchanges the two objects: the target holds exactly what
  the source held and the source holds what the target held. Move assignment between
  distinct \<^verbatim>\<open>RawMemory\<close> objects gives the target the buffer and capacity of the source
  and leaves the source with capacity \<open>0\<close>. Moves of \<^verbatim>\<open>Vector\<close>s and move construction
  of \<^verbatim>\<open>RawMemory\<close> leave the free store as it is.
\<close>

theorem move_transfers_contents:
  assumes "a \<noteq> b"
  shows "(\<exists>s'. RawMemory_move_ctor b a s = (Inr (), s') \<and>
            raws s' b = raws s a \<and> raws s' a = RawMemory_default \<and> heap s' = heap s)
       \<and> (\<exists>s'. Vector_move_ctor b a s = (Inr (), s') \<and>
            vecs s' b = vecs s a \<and> vecs s' a = Vector_default \<and>
            elems s' b = elems s a \<and> elems s' a = [] \<and> heap s' = heap s)
       \<and> (\<exists>s'. Vector_move_assign b a s = (Inr (), s') \<and>
            vecs s' b = vecs s a \<and> vecs s' a = vecs s b \<and>
            elems s' b = elems s a \<and> elems s' a = elems s b \<and> heap s' = heap s)
       \<and> (raw_buffer (raws s b) = 0 \<or> block_at s (raw_buffer (raws s b)) \<noteq> None \<longrightarrow>
           (\<exists>s'. RawMemory_move_assign b a s = (Inr (), s') \<and>
              raws s' b = raws s a \<and> raw_capacity (raws s' a) = 0))"
proof (intro conjI impI)
  from RawMemory_move_ctor_total obtain s' where
    e: "RawMemory_move_ctor b a s = (Inr (), s')" by blast
  from RawMemory_move_ctor_result [OF assms [symmetric] e]
  have "raws s' b = raws s a" "raws s' a = RawMemory_default" "heap s' = heap s"
    by (simp_all add: RawMemory_default_def)
  with e show "\<exists>s'. RawMemory_move_ctor b a s = (Inr (), s') \<and>
            raws s' b = raws s a \<and> raws s' a = RawMemory_default \<and> heap s' = heap s"
    by blast
next
  from Vector_move_ctor_total obtain s' where
    e: "Vector_move_ctor b a s = (Inr (), s')" by blast
  from Vector_move_ctor_result [OF assms [symmetric] e]
  have r: "vecs s' b = vecs s a" "vecs s' a = Vector_default" "heap s' = heap s"
    by simp_all
  from r(1,3) have e1: "elems s' b = elems s a"
    by (rule elems_cong)
  from r have e2: "elems s' a = []"
    by (simp add: elems_def Vector_default_def RawMemory_default_def block_at_def)
  from e r e1 e2 show "\<exists>s'. Vector_move_ctor b a s = (Inr (), s') \<and>
            vecs s' b = vecs s a \<and> vecs s' a = Vector_default \<and>
            elems s' b = elems s a \<and> elems s' a = [] \<and> heap s' = heap s"
    by blast
next
  from Vector_move_assign_total obtain s' where
    e: "Vector_move_assign b a s = (Inr (), s')" by blast
  with assms have "Vector_Swap_at b a s = (Inr (), s')"
    by (simp add: Vector_move_assign_def)
  from Vector_Swap_at_result [OF this]
  have r: "vecs s' b = vecs s a" "vecs s' a = vecs s b" "heap s' = heap s"
    by simp_all
  from r(1,3) have e1: "elems s' b = elems s a"
    by (rule elems_cong)
  from r(2,3) have e2: "elems s' a = elems s b"
    by (rule elems_cong)
  from e r e1 e2 show "\<exists>s'. Vector_move_assign b a s = (Inr (), s') \<and>
            vecs s' b = vecs s a \<and> vecs s' a = vecs s b \<and>
            elems s' b = elems s a \<and> elems s' a = elems s b \<and> heap s' = heap s"
    by blast
next
  assume "raw_buffer (raws s b) = 0 \<or> block_at s (raw_buffer (raws s b)) \<noteq> None"
  from RawMemory_move_assign_total [OF this] obtain s' where
    e: "RawMemory_move_assign b a s = (Inr (), s')" by blast
  from RawMemory_move_assign_result [OF assms [symmetric] e] e
  show "\<exists>s'. RawMemory_move_assign b a s = (Inr (), s') \<and>
              raws s' b = raws s a \<and> raw_capacity (raws s' a) = 0"
    by blast
qed

text \<open>
  The theorem at work: vector 1 (\<open>[10, 20]\<close>) is move-assigned into vector 2
  (\<open>[30]\<close>), and \<^verbatim>\<open>RawMemory\<close> 2 into \<^verbatim>\<open>RawMemory\<close> 1, whose buffer is the allocated
  block 1.
\<close>

theorem move_transfers_contents_witness:
  "(1::nat) \<noteq> 2 \<and>
   (\<exists>s'. Vector_move_assign 2 1 two_vectors = (Inr (), s') \<and>
      elems s' 2 = [10, 20] \<and> elems s' 1 = [30]) \<and>
   (\<exists>s'. Vector_move_ctor 2 1 two_vectors = (Inr (), s') \<and>
      elems s' 2 = [10, 20] \<and> elems s' 1 = []) \<and>
   (2::nat) \<noteq> 1 \<and>
   (raw_buffer (raws two_buffers 1) = 0 \<or>
    block_at two_buffers (raw_buffer (raws two_buffers 1)) \<noteq> None) \<and>
   (\<exists>s'. RawMemory_move_assign 1 2 two_buffers = (Inr (), s') \<and>
      raws s' 1 = \<lparr>raw_buffer = 2, raw_capacity = 3\<rparr> \<and> raw_capacity (raws s' 2) = 0) \<and>
   (\<exists>s'. RawMemory_move_ctor 1 2 two_buffers = (Inr (), s') \<and>
      raws s' 1 = \<lparr>raw_buffer = 2, raw_capacity = 3\<rparr> \<and> raws s' 2 = RawMemory_default)"
proof -
  have d: "(1::nat) \<noteq> 2" "(2::nat) \<noteq> 1" by simp_all
  have src: "elems two_vectors 1 = [10, 20]" "elems two_vectors 2 = [30]"
    by (simp_all add: elems_def two_vectors_def empty_machine_def block_at_def)
  have tgt: "raw_buffer (raws two_buffers 1) = 0 \<or>
      block_at two_buffers (raw_buffer (raws two_buffers 1)) \<noteq> None"
    by (simp add: two_buffers_def empty_machine_def block_at_def)
  have rsrc: "raws two_buffers 2 = \<lparr>raw_buffer = 2, raw_capacity = 3\<rparr>"
    by (simp add: two_buffers_def empty_machine_def)
  note v = move_transfers_contents [OF d(1), of two_vectors]
  note r = move_transfers_contents [OF d(2), of two_buffers]
  from v have va: "\<exists>s'. Vector_move_assign 2 1 two_vectors = (Inr (), s') \<and>
      elems s' 2 = [10, 20] \<and> elems s' 1 = [30]"
    unfolding src [symmetric] by blast
  from v have vc: "\<exists>s'. Vector_move_ctor 2 1 two_vectors = (Inr (), s') \<and>
      elems s' 2 = [10, 20] \<and> elems s' 1 = []"
    unfolding src(1) [symmetric] by blast
  from r tgt have ra: "\<exists>s'. RawMemory_move_assign 1 2 two_buffers = (Inr (), s') \<and>
      raws s' 1 = \<lparr>raw_buffer = 2, raw_capacity = 3\<rparr> \<and> raw_capacity (raws s' 2) = 0"
    unfolding rsrc [symmetric] by blast
  from r have rc: "\<exists>s'. RawMemory_move_ctor 1 2 two_buffers = (Inr (), s') \<and>
      raws s' 1 = \<lparr>raw_buffer = 2, raw_capacity = 3\<rparr> \<and> raws s' 2 = RawMemory_default"
    unfolding rsrc [symmetric] by blast
  from d va vc tgt ra rc show ?thesis
    by (intro conjI)
qed

text \<open>
  C2 at move assignment of \<^verbatim>\<open>RawMemory\<close>: assigning buffer 2 into buffer 1 releases
  block 1 and then hands its address, with capacity \<open>0\<close>, to the source. The source is
  left with a non-null buffer of capacity \<open>0\<close>, against the invariant, and its
  destructor releases block 1 a second time.
\<close>

theorem raw_move_assign_breaks_invariant:
  "raw_inv (raws two_buffers 1) \<and> raw_inv (raws two_buffers 2) \<and>
   RawMemory_move_assign 1 2 two_buffers = (Inr (), two_buffers_moved) \<and>
   raws two_buffers_moved 2 = \<lparr>raw_buffer = 1, raw_capacity = 0\<rparr> \<and>
   \<not> raw_inv (raws two_buffers_moved 2) \<and>
   block_at two_buffers_moved 1 = None \<and>
   RawMemory_dtor (raws two_buffers_moved 2) two_buffers_moved
     = (Inl Violation, two_buffers_moved)"
proof -
  have step1: "RawMemory_move_assign 1 2 two_buffers = (Inr (), two_buffers_moved)"
    by (simp add: RawMemory_move_assign_def RawMemory_Swap_at_def RawMemory_Swap_def
        Deallocate_def set_block_def bind_def block_at_def
        two_buffers_def two_buffers_moved_def empty_machine_def fun_eq_iff)
  have step2: "RawMemory_dtor (raws two_buffers_moved 2) two_buffers_moved
       = (Inl Violation, two_buffers_moved)"
    by (simp add: RawMemory_dtor_def Deallocate_def block_at_def two_buffers_moved_def
        empty_machine_def)
  have step3: "raw_inv (raws two_buffers 1)" "raw_inv (raws two_buffers 2)"
    "raws two_buffers_moved 2 = \<lparr>raw_buffer = 1, raw_capacity = 0\<rparr>"
    "\<not> raw_inv (raws two_buffers_moved 2)"
    "block_at two_buffers_moved 1 = None"
    by (simp_all add: raw_inv_def two_buffers_def two_buffers_moved_def empty_machine_def
        block_at_def)
  from step1 step2 step3 show ?thesis
    by (intro conjI)
qed

end
